theory Spec2Isabelle
  imports Main "HOL-Library.Word" "HOL-Library.Sublist"
begin

unbundle bit_operations_syntax

section \<open>Data model of the sidecar container builder\<close>

text \<open>
  The Kubernetes API types that \<^verbatim>\<open>connectSidecar\<close> reads and builds, with the fields the
  function touches. A Go string is a sequence of bytes, as an Isabelle \<^typ>\<open>string\<close> is; a Go
  map is a partial function, the nil map being the empty one (a lookup in it reports
  \<^verbatim>\<open>ok == false\<close>); a pointer that may be nil is an \<^typ>\<open>'a option\<close>. Fields of the Go
  structs that the function leaves at their zero value are not listed. Record schemes stand
  for everything else a pod or a handler carries.
\<close>

record ObjectFieldSelector =
  FieldPath :: string

record EnvVarSource =
  FieldRef :: "ObjectFieldSelector option"

record EnvVar =
  Name :: string
  Value :: string
  ValueFrom :: "EnvVarSource option"

record VolumeMount =
  Name :: string
  MountPath :: string

record Container =
  Name :: string
  Image :: string
  Env :: "EnvVar list"
  VolumeMounts :: "VolumeMount list"
  Command :: "string list"

record PodSpec =
  Containers :: "Container list"
  InitContainers :: "Container list"

record ObjectMeta =
  Name :: string
  Namespace :: string
  Labels :: "string \<rightharpoonup> string"
  Annotations :: "string \<rightharpoonup> string"

record Pod =
  ObjectMeta :: ObjectMeta
  Spec :: PodSpec

record Handler =
  ImageConsulK8s :: string
  AuthMethod :: string

text \<open>
  The annotation key. Its declaration is in another file of the package; the value is the
  key that \<^verbatim>\<open>TestConnectSidecar_SyncPeriodAnnotation\<close> sets to make the flag appear.
\<close>

definition annotationSyncPeriod :: string where
  "annotationSyncPeriod = ''consul.hashicorp.com/connect-sync-period''"


section \<open>The Go library functions the builder calls\<close>

text \<open>
  \<^verbatim>\<open>strings.TrimSpace\<close> belongs to the Go standard library. It is modelled after the
  library: \<^verbatim>\<open>TrimSpace(s) = TrimFunc(s, unicode.IsSpace)\<close>, which decodes the bytes of the
  string as UTF-8 from the left and then from the right. Runes are integers (Go's \<^verbatim>\<open>int32\<close>), a
  byte is read as a number with \<^const>\<open>of_char\<close>.
\<close>

definition RuneError :: int where
  "RuneError = 0xFFFD"

definition RuneSelf :: int where
  "RuneSelf = 0x80"

text \<open>
  The table \<^verbatim>\<open>utf8.first\<close> with \<^verbatim>\<open>utf8.acceptRanges\<close>: for a lead byte, the length
  of its sequence and the range its second byte must lie in; \<open>None\<close> for a byte that
  starts no multi-byte sequence.
\<close>

definition acceptRange :: "int \<Rightarrow> (nat \<times> int \<times> int) option" where
  "acceptRange s0 =
     (if 0xC2 \<le> s0 \<and> s0 \<le> 0xDF then Some (2, 0x80, 0xBF)
      else if s0 = 0xE0 then Some (3, 0xA0, 0xBF)
      else if 0xE1 \<le> s0 \<and> s0 \<le> 0xEC then Some (3, 0x80, 0xBF)
      else if s0 = 0xED then Some (3, 0x80, 0x9F)
      else if 0xEE \<le> s0 \<and> s0 \<le> 0xEF then Some (3, 0x80, 0xBF)
      else if s0 = 0xF0 then Some (4, 0x90, 0xBF)
      else if 0xF1 \<le> s0 \<and> s0 \<le> 0xF3 then Some (4, 0x80, 0xBF)
      else if s0 = 0xF4 then Some (4, 0x80, 0x8F)
      else None)"

text \<open>\<^verbatim>\<open>utf8.DecodeRuneInString\<close>: the first rune of the string and its width in bytes.\<close>

definition DecodeRuneInString :: "string \<Rightarrow> int \<times> nat" where
  "DecodeRuneInString s =
     (case s of
        [] \<Rightarrow> (RuneError, 0)
      | c0 # _ \<Rightarrow>
          let s0 = of_char c0 in
          if s0 < RuneSelf then (s0, 1)
          else case acceptRange s0 of
            None \<Rightarrow> (RuneError, 1)
          | Some (sz, lo, hi) \<Rightarrow>
              if length s < sz then (RuneError, 1)
              else let s1 = of_char (s ! 1) in
                if s1 < lo \<or> hi < s1 then (RuneError, 1)
                else if sz \<le> 2 then (push_bit 6 (s0 AND 0x1F) OR (s1 AND 0x3F), 2)
                else let s2 = of_char (s ! 2) in
                  if s2 < 0x80 \<or> 0xBF < s2 then (RuneError, 1)
                  else if sz \<le> 3 then
                    (push_bit 12 (s0 AND 0x0F) OR push_bit 6 (s1 AND 0x3F) OR (s2 AND 0x3F), 3)
                  else let s3 = of_char (s ! 3) in
                    if s3 < 0x80 \<or> 0xBF < s3 then (RuneError, 1)
                    else
                      (push_bit 18 (s0 AND 0x07) OR push_bit 12 (s1 AND 0x3F)
                         OR push_bit 6 (s2 AND 0x3F) OR (s3 AND 0x3F), 4))"

text \<open>\<^verbatim>\<open>utf8.RuneStart\<close>: the byte is not a continuation byte.\<close>

definition RuneStart :: "int \<Rightarrow> bool" where
  "RuneStart b = (b AND 0xC0 \<noteq> 0x80)"

text \<open>
  The backward scan of \<^verbatim>\<open>utf8.DecodeLastRuneInString\<close>:
  \<^verbatim>\<open>for start--; start >= lim; start-- { if RuneStart(s[start]) { break } }\<close>,
  entered here after the first decrement.
\<close>

function scanStart :: "string \<Rightarrow> int \<Rightarrow> int \<Rightarrow> int" where
  "scanStart s lim start =
     (if lim \<le> start then
        (if RuneStart (of_char (s ! nat start)) then start else scanStart s lim (start - 1))
      else start)"
  by pat_completeness auto
termination
  by (relation "measure (\<lambda>(s, lim, start). nat (start - lim + 1))") auto

declare scanStart.simps [simp del]

text \<open>\<^verbatim>\<open>utf8.DecodeLastRuneInString\<close>: the last rune of the string and its width.\<close>

definition DecodeLastRuneInString :: "string \<Rightarrow> int \<times> nat" where
  "DecodeLastRuneInString s =
     (let end = int (length s) in
      if end = 0 then (RuneError, 0)
      else
        let r = of_char (s ! nat (end - 1)) in
        if r < RuneSelf then (r, 1)
        else
          let lim = (if end - 4 < 0 then 0 else end - 4);
              start = scanStart s lim (end - 2);
              start = (if start < 0 then 0 else start);
              (r, size) = DecodeRuneInString (drop (nat start) s)
          in if start + int size \<noteq> end then (RuneError, 1) else (r, size))"

text \<open>
  \<^verbatim>\<open>unicode.IsSpace\<close>: the Latin-1 cases of the switch (taken when
  \<^verbatim>\<open>uint32(r) <= MaxLatin1\<close>, which no negative rune satisfies), then the ranges of the
  table \<^verbatim>\<open>unicode.White_Space\<close> above Latin-1.
\<close>

definition IsSpace :: "int \<Rightarrow> bool" where
  "IsSpace r =
     (if 0 \<le> r \<and> r \<le> 0xFF then
        r = 0x09 \<or> r = 0x0A \<or> r = 0x0B \<or> r = 0x0C \<or> r = 0x0D \<or> r = 0x20
          \<or> r = 0x85 \<or> r = 0xA0
      else
        r = 0x1680 \<or> (0x2000 \<le> r \<and> r \<le> 0x200A) \<or> (0x2028 \<le> r \<and> r \<le> 0x2029)
          \<or> r = 0x202F \<or> r = 0x205F \<or> r = 0x3000)"


lemma acceptRange_size:
  "acceptRange s0 = Some (sz, lo, hi) \<Longrightarrow> 2 \<le> sz \<and> sz \<le> 4"
  by (auto simp: acceptRange_def split: if_splits)

lemma DecodeRuneInString_size:
  "s \<noteq> [] \<Longrightarrow> 1 \<le> snd (DecodeRuneInString s) \<and> snd (DecodeRuneInString s) \<le> length s"
proof (cases s)
  case Nil
  assume "s \<noteq> []"
  with Nil show ?thesis by simp
next
  case (Cons c0 cs)
  show ?thesis
  proof (cases "acceptRange (of_char c0)")
    case None
    with Cons show ?thesis by (simp add: DecodeRuneInString_def Let_def)
  next
    case (Some t)
    obtain sz lo hi where t: "t = (sz, lo, hi)" by (cases t)
    from Some t have "2 \<le> sz \<and> sz \<le> 4" using acceptRange_size by blast
    with Cons Some t show ?thesis
      by (auto simp: DecodeRuneInString_def Let_def)
  qed
qed

lemma scanStart_le: "scanStart s lim start \<le> start"
proof (induction s lim start rule: scanStart.induct)
  case (1 s lim start)
  show ?case
  proof (cases "lim \<le> start \<and> \<not> RuneStart (of_char (s ! nat start))")
    case True
    with 1 have "scanStart s lim (start - 1) \<le> start - 1" by simp
    moreover from True have "scanStart s lim start = scanStart s lim (start - 1)"
      by (subst scanStart.simps) simp
    ultimately show ?thesis by linarith
  next
    case False
    then show ?thesis by (subst scanStart.simps) auto
  qed
qed

lemma DecodeLastRuneInString_size:
  assumes ne: "s \<noteq> []"
  shows "1 \<le> snd (DecodeLastRuneInString s) \<and> snd (DecodeLastRuneInString s) \<le> length s"
proof (cases "of_char (s ! nat (int (length s) - 1)) < RuneSelf")
  case True
  with ne show ?thesis
    by (simp add: DecodeLastRuneInString_def Let_def Suc_leI)
next
  case False
  define lim :: int where "lim = (if int (length s) - 4 < 0 then 0 else int (length s) - 4)"
  define b :: int where "b = scanStart s lim (int (length s) - 2)"
  define st :: int where "st = (if b < 0 then 0 else b)"
  define d where "d = DecodeRuneInString (drop (nat st) s)"
  have unf: "DecodeLastRuneInString s =
      (if st + int (snd d) \<noteq> int (length s) then (RuneError, 1) else (fst d, snd d))"
    using ne False
    by (simp add: DecodeLastRuneInString_def Let_def lim_def b_def st_def d_def
          split: prod.splits)
  have "b \<le> int (length s) - 2" unfolding b_def by (rule scanStart_le)
  with ne have st: "0 \<le> st \<and> st < int (length s)" by (auto simp: st_def)
  then have "drop (nat st) s \<noteq> []" by auto
  then have "1 \<le> snd d" unfolding d_def using DecodeRuneInString_size by blast
  with st ne show ?thesis unfolding unf by auto
qed

text \<open>
  \<^verbatim>\<open>strings.indexFunc(s, f, false)\<close> as \<^verbatim>\<open>TrimLeftFunc\<close> uses it: the range loop decodes
  rune after rune and stops at the first one that \<open>f\<close> rejects; what is returned is
  \<^verbatim>\<open>s[i:]\<close>, the empty string when the loop runs off the end.
\<close>

function TrimLeftFunc :: "(int \<Rightarrow> bool) \<Rightarrow> string \<Rightarrow> string" where
  "TrimLeftFunc f s =
     (if s = [] then []
      else let (r, size) = DecodeRuneInString s
           in if \<not> f r then s else TrimLeftFunc f (drop size s))"
  by pat_completeness auto
termination
proof (relation "measure (\<lambda>(f, s). length s)")
  show "wf (measure (\<lambda>(f, s). length s))" by simp
next
  fix f :: "int \<Rightarrow> bool" and s :: string and x :: "int \<times> nat" and r :: int and size :: nat
  assume "s \<noteq> []" and "x = DecodeRuneInString s" and "(r, size) = x"
  then have "1 \<le> size"
    using DecodeRuneInString_size[of s] by (metis snd_conv)
  with \<open>s \<noteq> []\<close> show "((f, drop size s), (f, s)) \<in> measure (\<lambda>(f, s). length s)"
    by simp
qed

declare TrimLeftFunc.simps [simp del]

text \<open>
  \<^verbatim>\<open>strings.lastIndexFunc(s, f, false)\<close>: decodes rune after rune from the right; the
  index of the last rune that \<open>f\<close> rejects, \<open>-1\<close> when there is none.
\<close>

function lastIndexFunc :: "(int \<Rightarrow> bool) \<Rightarrow> string \<Rightarrow> int" where
  "lastIndexFunc f s =
     (if s = [] then - 1
      else let (r, size) = DecodeLastRuneInString s;
               i = int (length s) - int size
           in if \<not> f r then i else lastIndexFunc f (take (nat i) s))"
  by pat_completeness auto
termination
proof (relation "measure (\<lambda>(f, s). length s)")
  show "wf (measure (\<lambda>(f, s). length s))" by simp
next
  fix f :: "int \<Rightarrow> bool" and s :: string and x :: "int \<times> nat" and r :: int and size :: nat and i :: int
  assume "s \<noteq> []" and "x = DecodeLastRuneInString s" and "(r, size) = x"
    and "i = int (length s) - int size"
  then have "1 \<le> size"
    using DecodeLastRuneInString_size[of s] by (metis snd_conv)
  moreover from \<open>s \<noteq> []\<close> have "0 < length s" by simp
  ultimately have "nat (int (length s) - int size) < length s" by linarith
  then show "((f, take (nat i) s), (f, s)) \<in> measure (\<lambda>(f, s). length s)"
    using \<open>i = int (length s) - int size\<close> by simp
qed

declare lastIndexFunc.simps [simp del]

text \<open>\<^verbatim>\<open>strings.TrimRightFunc\<close>, \<^verbatim>\<open>strings.TrimFunc\<close> and \<^verbatim>\<open>strings.TrimSpace\<close>.\<close>

definition TrimRightFunc :: "(int \<Rightarrow> bool) \<Rightarrow> string \<Rightarrow> string" where
  "TrimRightFunc f s =
     (let i = lastIndexFunc f s;
          i = (if 0 \<le> i \<and> RuneSelf \<le> of_char (s ! nat i)
               then i + int (snd (DecodeRuneInString (drop (nat i) s)))
               else i + 1)
      in take (nat i) s)"

definition TrimFunc :: "(int \<Rightarrow> bool) \<Rightarrow> string \<Rightarrow> string" where
  "TrimFunc f s = TrimRightFunc f (TrimLeftFunc f s)"

definition TrimSpace :: "string \<Rightarrow> string" where
  "TrimSpace s = TrimFunc IsSpace s"

section \<open>What TrimSpace removes\<close>

text \<open>
  The decoders above are related to the bytes they read: a rune that \<^const>\<open>IsSpace\<close>
  accepts is decoded exactly from one of the encodings listed below, from the front and
  from the back. With that, \<^const>\<open>TrimSpace\<close> is characterised without the decoders.
\<close>


lemma and_3F: "(x::int) AND 0x3F = take_bit 6 x"
  by (simp add: take_bit_eq_mask mask_eq_exp_minus_1)
lemma and_1F: "(x::int) AND 0x1F = take_bit 5 x"
  by (simp add: take_bit_eq_mask mask_eq_exp_minus_1)
lemma and_0F: "(x::int) AND 0x0F = take_bit 4 x"
  by (simp add: take_bit_eq_mask mask_eq_exp_minus_1)
lemma and_07: "(x::int) AND 0x07 = take_bit 3 x"
  by (simp add: take_bit_eq_mask mask_eq_exp_minus_1)

lemma or_concat: "push_bit n (a::int) OR take_bit n b = take_bit n b + push_bit n a"
  using concat_bit_eq [of n b a] by (simp only: concat_bit_def or.commute)

lemma rune2: "push_bit 6 ((s0::int) AND 0x1F) OR (s1 AND 0x3F) = (s0 mod 32) * 64 + s1 mod 64"
  by (simp only: and_1F and_3F or_concat) (simp add: take_bit_eq_mod push_bit_eq_mult)

lemma all_bytes: "\<forall>b\<in>set [0..255]. ((b::int) AND 0xC0 = 0x80) = (128 \<le> b \<and> b < 192)"
  by code_simp

lemma runestart: "0 \<le> (b::int) \<Longrightarrow> b < 256 \<Longrightarrow> (b AND 0xC0 = 0x80) = (128 \<le> b \<and> b < 192)"
  using all_bytes by simp

lemma divmod_base:
  fixes q c k :: int
  assumes "0 \<le> c" "c < k"
  shows "(q * k + c) div k = q" and "(q * k + c) mod k = c"
proof -
  from assms have k: "0 < k" by linarith
  from assms show "(q * k + c) mod k = c" by (simp add: mod_pos_pos_trivial)
  from assms k show "(q * k + c) div k = q" by (simp add: div_pos_pos_trivial)
qed

lemma digits3:
  fixes a b c :: int
  assumes "0 \<le> b" "b < 64" "0 \<le> c" "c < 64"
  shows "(a * 4096 + b * 64 + c) div 4096 = a"
    and "((a * 4096 + b * 64 + c) div 64) mod 64 = b"
    and "(a * 4096 + b * 64 + c) mod 64 = c"
proof -
  have e: "a * 4096 + b * 64 + c = (a * 64 + b) * 64 + c" by simp
  show "(a * 4096 + b * 64 + c) mod 64 = c"
    unfolding e using assms(3,4) by (rule divmod_base(2))
  have d: "(a * 4096 + b * 64 + c) div 64 = a * 64 + b"
    unfolding e using assms(3,4) by (rule divmod_base(1))
  show "((a * 4096 + b * 64 + c) div 64) mod 64 = b"
    unfolding d using assms(1,2) by (rule divmod_base(2))
  have "0 \<le> b * 64 + c \<and> b * 64 + c < 4096" using assms by auto
  then have "(a * 4096 + (b * 64 + c)) div 4096 = a"
    using divmod_base(1) [of "b * 64 + c" 4096 a] by simp
  then show "(a * 4096 + b * 64 + c) div 4096 = a" by (simp add: add.assoc)
qed

text \<open>
  The UTF-8 encodings of the code points that \<^const>\<open>IsSpace\<close> accepts: the six ASCII
  ones, U+0085 and U+00A0, U+1680, U+2000 to U+200A, U+2028, U+2029, U+202F, U+205F and
  U+3000.
\<close>

definition spaceEncodings :: "string list" where
  "spaceEncodings =
     [[CHR 0x09], [CHR 0x0A], [CHR 0x0B], [CHR 0x0C], [CHR 0x0D], [CHR 0x20],
      [CHR 0xC2, CHR 0x85], [CHR 0xC2, CHR 0xA0],
      [CHR 0xE1, CHR 0x9A, CHR 0x80],
      [CHR 0xE2, CHR 0x80, CHR 0x80], [CHR 0xE2, CHR 0x80, CHR 0x81],
      [CHR 0xE2, CHR 0x80, CHR 0x82], [CHR 0xE2, CHR 0x80, CHR 0x83],
      [CHR 0xE2, CHR 0x80, CHR 0x84], [CHR 0xE2, CHR 0x80, CHR 0x85],
      [CHR 0xE2, CHR 0x80, CHR 0x86], [CHR 0xE2, CHR 0x80, CHR 0x87],
      [CHR 0xE2, CHR 0x80, CHR 0x88], [CHR 0xE2, CHR 0x80, CHR 0x89],
      [CHR 0xE2, CHR 0x80, CHR 0x8A],
      [CHR 0xE2, CHR 0x80, CHR 0xA8], [CHR 0xE2, CHR 0x80, CHR 0xA9],
      [CHR 0xE2, CHR 0x80, CHR 0xAF],
      [CHR 0xE2, CHR 0x81, CHR 0x9F],
      [CHR 0xE3, CHR 0x80, CHR 0x80]]"

lemma of_char_bounds: "0 \<le> (of_char c :: int) \<and> (of_char c :: int) < 256"
  by (simp add: of_char_def)

lemma char_eqI: "(of_char c :: int) = of_char d \<Longrightarrow> c = d"
  by simp

text \<open>Forward: a white-space encoding at the front decodes to a white-space rune of its length.\<close>

lemma decode_spaceEncoding:
  "e \<in> set spaceEncodings \<Longrightarrow>
     IsSpace (fst (DecodeRuneInString (e @ t))) \<and> snd (DecodeRuneInString (e @ t)) = length e"
  unfolding spaceEncodings_def
  by (auto simp: DecodeRuneInString_def acceptRange_def RuneSelf_def IsSpace_def)

lemma space2:
  fixes s0 s1 :: int
  assumes "0xC2 \<le> s0" "s0 \<le> 0xDF" "0x80 \<le> s1" "s1 \<le> 0xBF"
    and sp: "IsSpace ((s0 mod 32) * 64 + s1 mod 64)"
  shows "s0 = 0xC2 \<and> (s1 = 0x85 \<or> s1 = 0xA0)"
proof -
  define a where "a = s0 - 192"
  define b where "b = s1 - 128"
  have a: "2 \<le> a" "a < 32" and b: "0 \<le> b" "b < 64" using assms by (auto simp: a_def b_def)
  have "s0 = 6 * 32 + a" by (simp add: a_def)
  then have ma: "s0 mod 32 = a" using divmod_base(2) [of a 32 6] a by simp
  have "s1 = 2 * 64 + b" by (simp add: b_def)
  then have mb: "s1 mod 64 = b" using divmod_base(2) [of b 64 2] b by simp
  define r where "r = a * 64 + b"
  have r: "128 \<le> r" "r < 2048" using a b by (auto simp: r_def)
  from sp have "IsSpace r" by (simp only: ma mb r_def)
  with r have v: "r = 133 \<or> r = 160" by (auto simp: IsSpace_def split: if_splits)
  have eqs: "a = r div 64" "b = r mod 64"
    using divmod_base [of b 64 a] b by (auto simp: r_def)
  from v have "(a = 2 \<and> b = 5) \<or> (a = 2 \<and> b = 32)"
    by (auto simp: eqs)
  then show ?thesis by (auto simp: a_def b_def)
qed

lemma space3:
  fixes s0 s1 s2 :: int
  assumes "0xE0 \<le> s0" "s0 \<le> 0xEF" "0x80 \<le> s1" "s1 \<le> 0xBF" "0x80 \<le> s2" "s2 \<le> 0xBF"
    and e0: "s0 = 0xE0 \<longrightarrow> 0xA0 \<le> s1"
    and sp: "IsSpace ((s0 mod 16) * 4096 + (s1 mod 64) * 64 + s2 mod 64)"
  shows "(s0 = 0xE1 \<and> s1 = 0x9A \<and> s2 = 0x80)
       \<or> (s0 = 0xE2 \<and> s1 = 0x80 \<and>
            (s2 = 0x80 \<or> s2 = 0x81 \<or> s2 = 0x82 \<or> s2 = 0x83 \<or> s2 = 0x84 \<or> s2 = 0x85
             \<or> s2 = 0x86 \<or> s2 = 0x87 \<or> s2 = 0x88 \<or> s2 = 0x89 \<or> s2 = 0x8A
             \<or> s2 = 0xA8 \<or> s2 = 0xA9 \<or> s2 = 0xAF))
       \<or> (s0 = 0xE2 \<and> s1 = 0x81 \<and> s2 = 0x9F)
       \<or> (s0 = 0xE3 \<and> s1 = 0x80 \<and> s2 = 0x80)"
proof -
  define a where "a = s0 - 224"
  define b where "b = s1 - 128"
  define c where "c = s2 - 128"
  have a: "0 \<le> a" "a < 16" and b: "0 \<le> b" "b < 64" and c: "0 \<le> c" "c < 64"
    using assms(1-6) by (auto simp: a_def b_def c_def)
  have "s0 = 14 * 16 + a" by (simp add: a_def)
  then have ma: "s0 mod 16 = a" using divmod_base(2) [of a 16 14] a by simp
  have "s1 = 2 * 64 + b" by (simp add: b_def)
  then have mb: "s1 mod 64 = b" using divmod_base(2) [of b 64 2] b by simp
  have "s2 = 2 * 64 + c" by (simp add: c_def)
  then have mc: "s2 mod 64 = c" using divmod_base(2) [of c 64 2] c by simp
  define r where "r = a * 4096 + b * 64 + c"
  have "a = 0 \<Longrightarrow> 32 \<le> b" using e0 by (simp add: a_def b_def)
  then have lo: "2048 \<le> r" using a b c by (cases "a = 0") (auto simp: r_def)
  from sp have "IsSpace r" by (simp only: ma mb mc r_def)
  with lo have v:
    "r = 5760 \<or> r = 8192 \<or> r = 8193 \<or> r = 8194 \<or> r = 8195 \<or> r = 8196 \<or> r = 8197
     \<or> r = 8198 \<or> r = 8199 \<or> r = 8200 \<or> r = 8201 \<or> r = 8202
     \<or> r = 8232 \<or> r = 8233 \<or> r = 8239 \<or> r = 8287 \<or> r = 12288"
    by (simp add: IsSpace_def split: if_splits) arith
  have eqs: "a = r div 4096" "b = (r div 64) mod 64" "c = r mod 64"
    using digits3 [OF b c, of a] by (simp_all add: r_def)
  from v have
    "(a = 1 \<and> b = 26 \<and> c = 0)
     \<or> (a = 2 \<and> b = 0 \<and> (c = 0 \<or> c = 1 \<or> c = 2 \<or> c = 3 \<or> c = 4 \<or> c = 5 \<or> c = 6 \<or> c = 7
           \<or> c = 8 \<or> c = 9 \<or> c = 10 \<or> c = 40 \<or> c = 41 \<or> c = 47))
     \<or> (a = 2 \<and> b = 1 \<and> c = 31)
     \<or> (a = 3 \<and> b = 0 \<and> c = 0)"
    by (elim disjE) (simp_all add: eqs)
  then show ?thesis by (auto simp: a_def b_def c_def)
qed

lemma or3:
  fixes x s1 s2 :: int
  shows "push_bit 12 x OR push_bit 6 (s1 AND 0x3F) OR (s2 AND 0x3F)
     = x * 4096 + (s1 mod 64) * 64 + s2 mod 64"
proof -
  let ?lo = "(s1 mod 64) * 64 + s2 mod 64"
  have lo: "push_bit 6 (s1 AND 0x3F) OR (s2 AND 0x3F) = ?lo"
    by (simp only: and_3F or_concat) (simp add: take_bit_eq_mod push_bit_eq_mult)
  have "0 \<le> ?lo \<and> ?lo < 4096"
    using pos_mod_bound [of 64 s1] pos_mod_bound [of 64 s2] pos_mod_sign [of 64 s1]
      pos_mod_sign [of 64 s2] by auto
  then have tb: "take_bit 12 ?lo = ?lo" by (simp add: take_bit_int_eq_self)
  have "push_bit 12 x OR ?lo = push_bit 12 x OR take_bit 12 ?lo"
    by (simp only: tb)
  also have "\<dots> = take_bit 12 ?lo + push_bit 12 x" by (rule or_concat)
  also have "\<dots> = x * 4096 + ?lo"
    by (simp only: tb) (simp add: push_bit_eq_mult)
  finally show ?thesis by (simp only: lo or.assoc)
qed

lemma or4:
  fixes x s1 s2 s3 :: int
  shows "push_bit 18 x OR push_bit 12 (s1 AND 0x3F) OR push_bit 6 (s2 AND 0x3F) OR (s3 AND 0x3F)
     = x * 262144 + (s1 mod 64) * 4096 + (s2 mod 64) * 64 + s3 mod 64"
proof -
  let ?lo = "(s1 mod 64) * 4096 + (s2 mod 64) * 64 + s3 mod 64"
  have lo: "push_bit 12 (s1 AND 0x3F) OR push_bit 6 (s2 AND 0x3F) OR (s3 AND 0x3F) = ?lo"
    by (simp only: or3) (simp add: and_3F take_bit_eq_mod)
  have "0 \<le> ?lo \<and> ?lo < 262144"
    using pos_mod_bound [of 64 s1] pos_mod_bound [of 64 s2] pos_mod_bound [of 64 s3]
      pos_mod_sign [of 64 s1] pos_mod_sign [of 64 s2] pos_mod_sign [of 64 s3] by auto
  then have tb: "take_bit 18 ?lo = ?lo" by (simp add: take_bit_int_eq_self)
  have "push_bit 18 x OR ?lo = push_bit 18 x OR take_bit 18 ?lo"
    by (simp only: tb)
  also have "\<dots> = take_bit 18 ?lo + push_bit 18 x" by (rule or_concat)
  also have "\<dots> = x * 262144 + ?lo"
    by (simp only: tb) (simp add: push_bit_eq_mult)
  finally show ?thesis by (simp only: lo or.assoc)
qed

lemma rune3:
  "push_bit 12 ((s0::int) AND 0x0F) OR push_bit 6 (s1 AND 0x3F) OR (s2 AND 0x3F)
     = (s0 mod 16) * 4096 + (s1 mod 64) * 64 + s2 mod 64"
  by (simp only: or3 and_0F) (simp add: take_bit_eq_mod)

lemma rune4:
  "push_bit 18 ((s0::int) AND 0x07) OR push_bit 12 (s1 AND 0x3F) OR push_bit 6 (s2 AND 0x3F)
       OR (s3 AND 0x3F)
     = (s0 mod 8) * 262144 + (s1 mod 64) * 4096 + (s2 mod 64) * 64 + s3 mod 64"
  by (simp only: or4 and_07) (simp add: take_bit_eq_mod)

lemma nospace4:
  fixes s0 s1 s2 s3 :: int
  assumes "0xF0 \<le> s0" "s0 \<le> 0xF4" "0x80 \<le> s1" "s1 \<le> 0xBF"
    and f0: "s0 = 0xF0 \<longrightarrow> 0x90 \<le> s1"
  shows "\<not> IsSpace ((s0 mod 8) * 262144 + (s1 mod 64) * 4096 + (s2 mod 64) * 64 + s3 mod 64)"
proof -
  define a where "a = s0 - 240"
  define b where "b = s1 - 128"
  have a: "0 \<le> a" "a < 8" and b: "0 \<le> b" "b < 64"
    using assms(1-4) by (auto simp: a_def b_def)
  have "s0 = 30 * 8 + a" by (simp add: a_def)
  then have ma: "s0 mod 8 = a" using divmod_base(2) [of a 8 30] a by simp
  have "s1 = 2 * 64 + b" by (simp add: b_def)
  then have mb: "s1 mod 64 = b" using divmod_base(2) [of b 64 2] b by simp
  define c where "c = s2 mod 64"
  define d where "d = s3 mod 64"
  have c: "0 \<le> c" and d: "0 \<le> d" by (simp_all add: c_def d_def)
  have "a = 0 \<Longrightarrow> 16 \<le> b" using f0 by (simp add: a_def b_def)
  then have "65536 \<le> a * 262144 + b * 4096 + c * 64 + d"
    using a b c d by (cases "a = 0") auto
  then show ?thesis unfolding ma mb c_def [symmetric] d_def [symmetric]
    by (simp add: IsSpace_def)
qed

lemma acceptRange_cases:
  assumes "acceptRange s0 = Some (sz, lo, hi)"
  shows "(sz = 2 \<and> 0xC2 \<le> s0 \<and> s0 \<le> 0xDF \<and> lo = 0x80 \<and> hi = 0xBF)
       \<or> (sz = 3 \<and> 0xE0 \<le> s0 \<and> s0 \<le> 0xEF \<and> 0x80 \<le> lo \<and> hi \<le> 0xBF
            \<and> (s0 = 0xE0 \<longrightarrow> lo = 0xA0))
       \<or> (sz = 4 \<and> 0xF0 \<le> s0 \<and> s0 \<le> 0xF4 \<and> 0x80 \<le> lo \<and> hi \<le> 0xBF
            \<and> (s0 = 0xF0 \<longrightarrow> lo = 0x90))"
  using assms by (auto simp: acceptRange_def split: if_splits)

text \<open>
  The shape of a multi-byte result: the lead byte's table entry, the bytes that were
  checked, and the rune in arithmetic form.
\<close>

lemma DecodeRuneInString_wide:
  assumes "2 \<le> snd (DecodeRuneInString s)"
  obtains sz lo hi where
    "acceptRange (of_char (s ! 0)) = Some (sz, lo, hi)"
    "snd (DecodeRuneInString s) = sz" "sz \<le> length s"
    "RuneSelf \<le> of_char (s ! 0)"
    "lo \<le> of_char (s ! 1)" "of_char (s ! 1) \<le> hi"
    "3 \<le> sz \<Longrightarrow> 0x80 \<le> (of_char (s ! 2) :: int) \<and> (of_char (s ! 2) :: int) \<le> 0xBF"
    "4 \<le> sz \<Longrightarrow> 0x80 \<le> (of_char (s ! 3) :: int) \<and> (of_char (s ! 3) :: int) \<le> 0xBF"
    "sz = 2 \<Longrightarrow> fst (DecodeRuneInString s)
       = (of_char (s ! 0) mod 32) * 64 + of_char (s ! 1) mod 64"
    "sz = 3 \<Longrightarrow> fst (DecodeRuneInString s)
       = (of_char (s ! 0) mod 16) * 4096 + (of_char (s ! 1) mod 64) * 64 + of_char (s ! 2) mod 64"
    "sz = 4 \<Longrightarrow> fst (DecodeRuneInString s)
       = (of_char (s ! 0) mod 8) * 262144 + (of_char (s ! 1) mod 64) * 4096
         + (of_char (s ! 2) mod 64) * 64 + of_char (s ! 3) mod 64"
proof (cases s)
  case Nil
  with assms show ?thesis by (simp add: DecodeRuneInString_def)
next
  case (Cons c0 cs)
  show ?thesis
  proof (cases "acceptRange (of_char c0)")
    case None
    with Cons assms show ?thesis
      by (auto simp: DecodeRuneInString_def Let_def split: if_splits)
  next
    case (Some t)
    obtain sz lo hi where t: "t = (sz, lo, hi)" by (cases t)
    from acceptRange_size Some t have sz: "2 \<le> sz \<and> sz \<le> 4" by blast
    then have szc: "sz = 2 \<or> sz = 3 \<or> sz = 4" by auto
    from Cons Some t assms have ge: "RuneSelf \<le> of_char c0"
      by (auto simp: DecodeRuneInString_def Let_def split: if_splits)
    from Cons Some t assms ge sz have len: "sz \<le> length s"
      by (auto simp: DecodeRuneInString_def Let_def split: if_splits)
    from Cons Some t assms ge len have s1: "lo \<le> of_char (s ! 1) \<and> of_char (s ! 1) \<le> hi"
      by (auto simp: DecodeRuneInString_def Let_def split: if_splits)
    have s2: "3 \<le> sz \<Longrightarrow> 0x80 \<le> (of_char (s ! 2) :: int) \<and> (of_char (s ! 2) :: int) \<le> 0xBF"
      using Cons Some t assms ge len s1
      by (auto simp: DecodeRuneInString_def Let_def split: if_splits)
    have s3: "4 \<le> sz \<Longrightarrow> 0x80 \<le> (of_char (s ! 3) :: int) \<and> (of_char (s ! 3) :: int) \<le> 0xBF"
      using Cons Some t assms ge len s1 s2
      by (auto simp: DecodeRuneInString_def Let_def split: if_splits)
    have w: "snd (DecodeRuneInString s) = sz"
      using Cons Some t assms ge len s1 s2 s3 szc
      by (auto simp: DecodeRuneInString_def Let_def split: if_splits)
    have r2b: "sz = 2 \<Longrightarrow> fst (DecodeRuneInString s)
        = push_bit 6 (of_char (s ! 0) AND 0x1F) OR (of_char (s ! 1) AND 0x3F)"
      using Cons Some t assms ge len s1
      by (auto simp: DecodeRuneInString_def Let_def split: if_splits)
    have r3b: "sz = 3 \<Longrightarrow> fst (DecodeRuneInString s)
        = push_bit 12 (of_char (s ! 0) AND 0x0F) OR push_bit 6 (of_char (s ! 1) AND 0x3F)
            OR (of_char (s ! 2) AND 0x3F)"
      using Cons Some t assms ge len s1 s2
      by (auto simp: DecodeRuneInString_def Let_def split: if_splits)
    have r4b: "sz = 4 \<Longrightarrow> fst (DecodeRuneInString s)
        = push_bit 18 (of_char (s ! 0) AND 0x07) OR push_bit 12 (of_char (s ! 1) AND 0x3F)
            OR push_bit 6 (of_char (s ! 2) AND 0x3F) OR (of_char (s ! 3) AND 0x3F)"
      using Cons Some t assms ge len s1 s2 s3
      by (auto simp: DecodeRuneInString_def Let_def split: if_splits)
    note r2 = r2b [unfolded rune2]
    note r3 = r3b [unfolded rune3]
    note r4 = r4b [unfolded rune4]
    from Cons Some t have ar: "acceptRange (of_char (s ! 0)) = Some (sz, lo, hi)" by simp
    from Cons ge have ge': "RuneSelf \<le> of_char (s ! 0)" by simp
    from that [OF ar w len ge' conjunct1 [OF s1] conjunct2 [OF s1] s2 s3 r2 r3 r4] show ?thesis .
  qed
qed

text \<open>Backward reading of the same: a white-space rune at the front comes from an encoding.\<close>

lemma decode_space_take:
  assumes ne: "s \<noteq> []" and sp: "IsSpace (fst (DecodeRuneInString s))"
  shows "take (snd (DecodeRuneInString s)) s \<in> set spaceEncodings"
proof (cases "2 \<le> snd (DecodeRuneInString s)")
  case False
  from ne obtain c0 cs where s: "s = c0 # cs" by (cases s) auto
  from DecodeRuneInString_size [OF ne] False have w: "snd (DecodeRuneInString s) = 1" by simp
  show ?thesis
  proof (cases "(of_char c0 :: int) < RuneSelf")
    case True
    with s have r: "fst (DecodeRuneInString s) = of_char c0"
      by (simp add: DecodeRuneInString_def Let_def)
    from sp r of_char_bounds [of c0]
    have "(of_char c0 :: int) = 0x09 \<or> (of_char c0 :: int) = 0x0A \<or> (of_char c0 :: int) = 0x0B
        \<or> (of_char c0 :: int) = 0x0C \<or> (of_char c0 :: int) = 0x0D \<or> (of_char c0 :: int) = 0x20"
      using True by (auto simp: IsSpace_def RuneSelf_def split: if_splits)
    then have "c0 = CHR 0x09 \<or> c0 = CHR 0x0A \<or> c0 = CHR 0x0B \<or> c0 = CHR 0x0C \<or> c0 = CHR 0x0D
        \<or> c0 = CHR 0x20"
      by (elim disjE) (simp_all add: char_eqI)
    with s w show ?thesis by (auto simp: spaceEncodings_def)
  next
    case False
    with s w have "fst (DecodeRuneInString s) = RuneError"
      by (auto simp: DecodeRuneInString_def Let_def split: option.splits if_splits)
    with sp show ?thesis by (simp add: IsSpace_def RuneError_def)
  qed
next
  case True
  from DecodeRuneInString_wide [OF True] obtain sz lo hi where
    ar: "acceptRange (of_char (s ! 0)) = Some (sz, lo, hi)"
    and w: "snd (DecodeRuneInString s) = sz" and len: "sz \<le> length s"
    and s1: "lo \<le> of_char (s ! 1)" "of_char (s ! 1) \<le> hi"
    and s2: "3 \<le> sz \<Longrightarrow> 0x80 \<le> (of_char (s ! 2) :: int) \<and> (of_char (s ! 2) :: int) \<le> 0xBF"
    and r2: "sz = 2 \<Longrightarrow> fst (DecodeRuneInString s)
       = (of_char (s ! 0) mod 32) * 64 + of_char (s ! 1) mod 64"
    and r3: "sz = 3 \<Longrightarrow> fst (DecodeRuneInString s)
       = (of_char (s ! 0) mod 16) * 4096 + (of_char (s ! 1) mod 64) * 64 + of_char (s ! 2) mod 64"
    and r4: "sz = 4 \<Longrightarrow> fst (DecodeRuneInString s)
       = (of_char (s ! 0) mod 8) * 262144 + (of_char (s ! 1) mod 64) * 4096
         + (of_char (s ! 2) mod 64) * 64 + of_char (s ! 3) mod 64"
    by blast
  define b0 :: int where "b0 = of_char (s ! 0)"
  define b1 :: int where "b1 = of_char (s ! 1)"
  define b2 :: int where "b2 = of_char (s ! 2)"
  note ac = acceptRange_cases [OF ar, folded b0_def]
  from ac consider
      (two) "sz = 2" "0xC2 \<le> b0" "b0 \<le> 0xDF" "lo = 0x80" "hi = 0xBF"
    | (three) "sz = 3" "0xE0 \<le> b0" "b0 \<le> 0xEF" "0x80 \<le> lo" "hi \<le> 0xBF" "b0 = 0xE0 \<longrightarrow> lo = 0xA0"
    | (four) "sz = 4" "0xF0 \<le> b0" "b0 \<le> 0xF4" "0x80 \<le> lo" "hi \<le> 0xBF" "b0 = 0xF0 \<longrightarrow> lo = 0x90"
    by blast
  then show ?thesis
  proof cases
    case two
    from sp r2 [OF two(1)] have "IsSpace ((b0 mod 32) * 64 + b1 mod 64)"
      by (simp only: b0_def b1_def)
    from space2 [OF two(2,3) _ _ this] s1 two(4,5)
    have v: "b0 = 0xC2 \<and> (b1 = 0x85 \<or> b1 = 0xA0)" by (simp add: b1_def)
    then have c: "s ! 0 = CHR 0xC2 \<and> (s ! 1 = CHR 0x85 \<or> s ! 1 = CHR 0xA0)"
      unfolding b0_def b1_def by (auto intro: char_eqI)
    from len two(1) have t: "take 2 s = [s ! 0, s ! 1]"
      by (cases s; cases "tl s") auto
    from c t w two(1) show ?thesis by (auto simp: spaceEncodings_def)
  next
    case three
    from sp r3 [OF three(1)]
    have i: "IsSpace ((b0 mod 16) * 4096 + (b1 mod 64) * 64 + b2 mod 64)"
      by (simp only: b0_def b1_def b2_def)
    have r1: "0x80 \<le> b1" "b1 \<le> 0xBF" using s1 three(4,5) by (auto simp: b1_def)
    have r2: "0x80 \<le> b2" "b2 \<le> 0xBF" using s2 three(1) by (auto simp: b2_def)
    have e0: "b0 = 0xE0 \<longrightarrow> 0xA0 \<le> b1" using three(6) s1 by (auto simp: b1_def)
    note v = space3 [OF three(2,3) r1 r2 e0 i]
    from len three(1) have t: "take 3 s = [s ! 0, s ! 1, s ! 2]"
      by (cases s; cases "tl s"; cases "tl (tl s)") auto
    from v have "[s ! 0, s ! 1, s ! 2] \<in> set spaceEncodings"
      unfolding b0_def b1_def b2_def spaceEncodings_def
      by (elim disjE conjE) (simp_all add: char_eqI)
    with t w three(1) show ?thesis by simp
  next
    case four
    have r1: "0x80 \<le> b1" "b1 \<le> 0xBF" using s1 four(4,5) by (auto simp: b1_def)
    have f0: "b0 = 0xF0 \<longrightarrow> 0x90 \<le> b1" using four(6) s1 by (auto simp: b1_def)
    from nospace4 [OF four(2,3) r1 f0] sp r4 [OF four(1)] show ?thesis
      by (simp only: b0_def b1_def)
  qed
qed

lemma spaceEncodings_nonempty: "e \<in> set spaceEncodings \<Longrightarrow> e \<noteq> []"
  by (auto simp: spaceEncodings_def)

lemma TrimLeftFunc_spaces:
  "\<exists>ls. s = concat ls @ TrimLeftFunc IsSpace s \<and> set ls \<subseteq> set spaceEncodings"
proof (induction "IsSpace" s rule: TrimLeftFunc.induct)
  case (1 s)
  show ?case
  proof (cases "s \<noteq> [] \<and> IsSpace (fst (DecodeRuneInString s))")
    case True
    obtain r size where d: "DecodeRuneInString s = (r, size)" by (cases "DecodeRuneInString s")
    with True have "\<exists>ls. drop size s = concat ls @ TrimLeftFunc IsSpace (drop size s)
        \<and> set ls \<subseteq> set spaceEncodings"
      using "1.hyps" [of "(r, size)" r size] by simp
    then obtain ls where ls: "drop size s = concat ls @ TrimLeftFunc IsSpace (drop size s)"
      "set ls \<subseteq> set spaceEncodings" by blast
    from True d have t: "TrimLeftFunc IsSpace s = TrimLeftFunc IsSpace (drop size s)"
      by (subst TrimLeftFunc.simps) simp
    from decode_space_take [of s] True d have e: "take size s \<in> set spaceEncodings" by simp
    have "s = take size s @ drop size s" by simp
    also have "\<dots> = concat (take size s # ls) @ TrimLeftFunc IsSpace s"
      using ls(1) t by simp
    finally have "s = concat (take size s # ls) @ TrimLeftFunc IsSpace s" .
    moreover have "set (take size s # ls) \<subseteq> set spaceEncodings" using e ls(2) by simp
    ultimately show ?thesis by blast
  next
    case False
    then have "TrimLeftFunc IsSpace s = s"
      by (subst TrimLeftFunc.simps) (auto split: prod.splits)
    then have "s = concat [] @ TrimLeftFunc IsSpace s \<and> set [] \<subseteq> set spaceEncodings"
      by simp
    then show ?thesis by blast
  qed
qed

lemma TrimLeftFunc_stops:
  "TrimLeftFunc IsSpace s = [] \<or> \<not> IsSpace (fst (DecodeRuneInString (TrimLeftFunc IsSpace s)))"
proof (induction "IsSpace" s rule: TrimLeftFunc.induct)
  case (1 s)
  show ?case
  proof (cases "s \<noteq> [] \<and> IsSpace (fst (DecodeRuneInString s))")
    case True
    obtain r size where d: "DecodeRuneInString s = (r, size)" by (cases "DecodeRuneInString s")
    from True d have t: "TrimLeftFunc IsSpace s = TrimLeftFunc IsSpace (drop size s)"
      by (subst TrimLeftFunc.simps) simp
    from True d "1.hyps" [of "(r, size)" r size] show ?thesis unfolding t by simp
  next
    case False
    then have "TrimLeftFunc IsSpace s = s"
      by (subst TrimLeftFunc.simps) (auto split: prod.splits)
    with False show ?thesis by auto
  qed
qed

lemma TrimLeftFunc_no_prefix:
  assumes "e \<in> set spaceEncodings"
  shows "\<not> prefix e (TrimLeftFunc IsSpace s)"
proof
  assume "prefix e (TrimLeftFunc IsSpace s)"
  then obtain t where t: "TrimLeftFunc IsSpace s = e @ t" by (auto simp: prefix_def)
  with spaceEncodings_nonempty [OF assms] have "TrimLeftFunc IsSpace s \<noteq> []" by simp
  with TrimLeftFunc_stops [of s]
  have "\<not> IsSpace (fst (DecodeRuneInString (TrimLeftFunc IsSpace s)))" by blast
  with decode_spaceEncoding [OF assms, of t] t show False by simp
qed

lemma RuneStart_char:
  "RuneStart (of_char c) \<longleftrightarrow> \<not> (0x80 \<le> (of_char c :: int) \<and> (of_char c :: int) \<le> 0xBF)"
  using runestart [of "of_char c"] of_char_bounds [of c] by (auto simp: RuneStart_def)

lemma scanStart_hit:
  "lim \<le> start \<Longrightarrow> RuneStart (of_char (s ! nat start)) \<Longrightarrow> scanStart s lim start = start"
  by (subst scanStart.simps) simp

lemma scanStart_skip:
  "lim \<le> start \<Longrightarrow> \<not> RuneStart (of_char (s ! nat start)) \<Longrightarrow>
     scanStart s lim start = scanStart s lim (start - 1)"
  by (subst scanStart.simps) simp

lemma scanStart_ge: "scanStart s lim start \<ge> min start (lim - 1)"
proof (induction s lim start rule: scanStart.induct)
  case (1 s lim start)
  show ?case
  proof (cases "lim \<le> start \<and> \<not> RuneStart (of_char (s ! nat start))")
    case True
    with 1 have "min (start - 1) (lim - 1) \<le> scanStart s lim (start - 1)" by simp
    moreover from True have "scanStart s lim start = scanStart s lim (start - 1)"
      by (simp add: scanStart_skip)
    ultimately show ?thesis using True by simp
  next
    case False
    then show ?thesis by (subst scanStart.simps) auto
  qed
qed

text \<open>
  The result of the backward decoder on a string that ends in a byte outside ASCII: the
  forward decoder run from some position \<open>st\<close> of the last four bytes, accepted when it
  consumes the rest exactly.
\<close>

definition lastStart :: "string \<Rightarrow> nat" where
  "lastStart s =
     (let end = int (length s);
          start = scanStart s (if end - 4 < 0 then 0 else end - 4) (end - 2)
      in nat (if start < 0 then 0 else start))"

lemma lastStart_less: "s \<noteq> [] \<Longrightarrow> lastStart s < length s"
proof -
  assume ne: "s \<noteq> []"
  have "scanStart s (if int (length s) - 4 < 0 then 0 else int (length s) - 4) (int (length s) - 2)
      \<le> int (length s) - 2" by (rule scanStart_le)
  with ne show ?thesis by (auto simp: lastStart_def Let_def)
qed

lemma nth_last: "s \<noteq> [] \<Longrightarrow> s ! nat (int (length s) - 1) = last s"
proof -
  assume ne: "s \<noteq> []"
  have "nat (int (length s) - 1) = length s - 1" by linarith
  with ne show ?thesis by (simp add: last_conv_nth)
qed

lemma DecodeLast_ascii:
  "s \<noteq> [] \<Longrightarrow> (of_char (last s) :: int) < RuneSelf \<Longrightarrow>
     DecodeLastRuneInString s = (of_char (last s), 1)"
  by (simp add: DecodeLastRuneInString_def Let_def nth_last)

lemma DecodeLast_wide:
  assumes "s \<noteq> []" and "\<not> (of_char (last s) :: int) < RuneSelf"
  shows "DecodeLastRuneInString s =
           (if lastStart s + snd (DecodeRuneInString (drop (lastStart s) s)) \<noteq> length s
            then (RuneError, 1) else DecodeRuneInString (drop (lastStart s) s))"
proof -
  define lim :: int where "lim = (if int (length s) - 4 < 0 then 0 else int (length s) - 4)"
  define b :: int where "b = scanStart s lim (int (length s) - 2)"
  define st :: int where "st = (if b < 0 then 0 else b)"
  define d where "d = DecodeRuneInString (drop (nat st) s)"
  have unf: "DecodeLastRuneInString s =
      (if st + int (snd d) \<noteq> int (length s) then (RuneError, 1) else (fst d, snd d))"
    using assms
    by (simp add: DecodeLastRuneInString_def Let_def lim_def b_def st_def d_def nth_last
          split: prod.splits)
  have st: "0 \<le> st" by (simp add: st_def)
  have ls: "lastStart s = nat st"
    by (simp add: st_def b_def lim_def lastStart_def Let_def)
  have c: "(st + int (snd d) \<noteq> int (length s)) = (nat st + snd d \<noteq> length s)"
    using st by auto
  have "DecodeLastRuneInString s =
      (if nat st + snd d \<noteq> length s then (RuneError, 1) else (fst d, snd d))"
    by (simp only: unf c)
  then show ?thesis by (simp add: ls d_def)
qed

lemma ascii_space_char:
  assumes "(of_char c :: int) < RuneSelf" and "IsSpace (of_char c)"
  shows "[c] \<in> set spaceEncodings"
proof -
  from assms of_char_bounds [of c]
  have "(of_char c :: int) = 0x09 \<or> (of_char c :: int) = 0x0A \<or> (of_char c :: int) = 0x0B
      \<or> (of_char c :: int) = 0x0C \<or> (of_char c :: int) = 0x0D \<or> (of_char c :: int) = 0x20"
    by (auto simp: IsSpace_def RuneSelf_def split: if_splits)
  then have "c = CHR 0x09 \<or> c = CHR 0x0A \<or> c = CHR 0x0B \<or> c = CHR 0x0C \<or> c = CHR 0x0D
      \<or> c = CHR 0x20"
    by (elim disjE) (simp_all add: char_eqI)
  then show ?thesis by (auto simp: spaceEncodings_def)
qed

text \<open>A white-space rune at the end comes from an encoding at the end.\<close>

lemma decodeLast_space_drop:
  assumes ne: "s \<noteq> []" and sp: "IsSpace (fst (DecodeLastRuneInString s))"
  shows "drop (length s - snd (DecodeLastRuneInString s)) s \<in> set spaceEncodings"
proof (cases "(of_char (last s) :: int) < RuneSelf")
  case True
  from DecodeLast_ascii [OF ne True] sp have "IsSpace (of_char (last s))" by simp
  from ascii_space_char [OF True this] have "[last s] \<in> set spaceEncodings" .
  moreover from ne have "drop (length s - 1) s = [last s]"
    by (cases s rule: rev_cases) auto
  ultimately show ?thesis using DecodeLast_ascii [OF ne True] by simp
next
  case False
  let ?st = "lastStart s"
  let ?d = "DecodeRuneInString (drop ?st s)"
  note w = DecodeLast_wide [OF ne False]
  show ?thesis
  proof (cases "?st + snd ?d \<noteq> length s")
    case True
    with w sp show ?thesis by (simp add: IsSpace_def RuneError_def)
  next
    case False
    with w have e: "DecodeLastRuneInString s = ?d" by simp
    from lastStart_less [OF ne] have dn: "drop ?st s \<noteq> []" by simp
    from sp e have "IsSpace (fst ?d)" by simp
    from decode_space_take [OF dn this] have "take (snd ?d) (drop ?st s) \<in> set spaceEncodings" .
    moreover from False have "snd ?d = length (drop ?st s)" by simp
    moreover from False have "length s - snd ?d = ?st" by simp
    ultimately show ?thesis using e by simp
  qed
qed

text \<open>One byte outside ASCII, followed by nothing or by the start of a rune, is one rune wide.\<close>

lemma decode_lone_byte:
  assumes "RuneSelf \<le> of_char b" and "w = [] \<or> RuneStart (of_char (hd w))"
  shows "snd (DecodeRuneInString (b # w)) = 1"
proof (rule ccontr)
  assume n: "snd (DecodeRuneInString (b # w)) \<noteq> 1"
  from DecodeRuneInString_size [of "b # w"] n have "2 \<le> snd (DecodeRuneInString (b # w))"
    by simp
  from DecodeRuneInString_wide [OF this] obtain sz lo hi where
    ar: "acceptRange (of_char ((b # w) ! 0)) = Some (sz, lo, hi)"
    and len: "sz \<le> length (b # w)"
    and s1: "lo \<le> of_char ((b # w) ! 1)" "of_char ((b # w) ! 1) \<le> hi"
    by blast
  from acceptRange_size [OF ar] len have "w \<noteq> []" by auto
  then have h: "(b # w) ! 1 = hd w" by (cases w) auto
  from acceptRange_cases [OF ar] have "0x80 \<le> lo \<and> hi \<le> 0xBF" by auto
  with s1 h have "0x80 \<le> (of_char (hd w) :: int) \<and> (of_char (hd w) :: int) \<le> 0xBF" by auto
  with RuneStart_char [of "hd w"] assms(2) \<open>w \<noteq> []\<close> show False by blast
qed

text \<open>A multi-byte result of the forward decoder does not depend on what follows it.\<close>

lemma decode_append:
  assumes "2 \<le> snd (DecodeRuneInString t)"
  shows "DecodeRuneInString (t @ w) = DecodeRuneInString t"
proof -
  from DecodeRuneInString_wide [OF assms] obtain sz lo hi where
    ar: "acceptRange (of_char (t ! 0)) = Some (sz, lo, hi)"
    and len: "sz \<le> length t"
    by blast
  from acceptRange_size [OF ar] have sz: "2 \<le> sz \<and> sz \<le> 4" .
  with len obtain c0 cs where t: "t = c0 # cs" by (cases t) auto
  from ar t have ar': "acceptRange (of_char c0) = Some (sz, lo, hi)" by simp
  from sz consider "sz = 2" | "sz = 3" | "sz = 4" by linarith
  then show ?thesis
  proof cases
    case 1
    with len t obtain c1 r where "t = c0 # c1 # r" by (cases cs) auto
    with ar' 1 show ?thesis by (simp add: DecodeRuneInString_def Let_def)
  next
    case 2
    with len t obtain c1 c2 r where "t = c0 # c1 # c2 # r"
      by (cases cs; cases "tl cs") auto
    with ar' 2 show ?thesis by (simp add: DecodeRuneInString_def Let_def)
  next
    case 3
    with len t obtain c1 c2 c3 r where "t = c0 # c1 # c2 # c3 # r"
      by (cases cs; cases "tl cs"; cases "tl (tl cs)") auto
    with ar' 3 show ?thesis by (simp add: DecodeRuneInString_def Let_def)
  qed
qed

lemma lastStart_2:
  assumes "RuneStart (of_char x)"
  shows "lastStart (t @ [x, y]) = length t"
proof -
  let ?s = "t @ [x, y]"
  let ?lim = "if int (length ?s) - 4 < 0 then 0 else int (length ?s) - 4"
  have p: "int (length ?s) - 2 = int (length t)" by simp
  have "?lim \<le> int (length t)" by simp
  moreover have "RuneStart (of_char (?s ! nat (int (length t))))" using assms by simp
  ultimately have "scanStart ?s ?lim (int (length t)) = int (length t)"
    by (rule scanStart_hit)
  then show ?thesis unfolding lastStart_def Let_def p by simp
qed

lemma lastStart_3:
  assumes "RuneStart (of_char x)" and "\<not> RuneStart (of_char y)"
  shows "lastStart (t @ [x, y, z]) = length t"
proof -
  let ?s = "t @ [x, y, z]"
  let ?lim = "if int (length ?s) - 4 < 0 then 0 else int (length ?s) - 4"
  have p: "int (length ?s) - 2 = int (length t) + 1" by simp
  have l1: "?lim \<le> int (length t) + 1" and l0: "?lim \<le> int (length t)" by simp_all
  have "nat (int (length t) + 1) = length t + 1" by simp
  then have n1: "\<not> RuneStart (of_char (?s ! nat (int (length t) + 1)))"
    using assms(2) by (simp add: nth_append)
  have n0: "RuneStart (of_char (?s ! nat (int (length t))))" using assms(1) by simp
  have "scanStart ?s ?lim (int (length t) + 1) = scanStart ?s ?lim (int (length t) + 1 - 1)"
    using l1 n1 by (rule scanStart_skip)
  also have "\<dots> = scanStart ?s ?lim (int (length t))" by simp
  also have "\<dots> = int (length t)" using l0 n0 by (rule scanStart_hit)
  finally show ?thesis unfolding lastStart_def Let_def p by simp
qed

lemma spaceEncodings_shape:
  assumes "e \<in> set spaceEncodings"
  shows "(\<exists>c. e = [c] \<and> (of_char c :: int) < RuneSelf)
       \<or> (\<exists>x y. e = [x, y] \<and> RuneStart (of_char x) \<and> \<not> (of_char y :: int) < RuneSelf)
       \<or> (\<exists>x y z. e = [x, y, z] \<and> RuneStart (of_char x) \<and> \<not> RuneStart (of_char y)
              \<and> \<not> (of_char z :: int) < RuneSelf)"
proof -
  from assms have
    "e = [CHR 0x09] \<or> e = [CHR 0x0A] \<or> e = [CHR 0x0B] \<or> e = [CHR 0x0C] \<or> e = [CHR 0x0D]
     \<or> e = [CHR 0x20] \<or> e = [CHR 0xC2, CHR 0x85] \<or> e = [CHR 0xC2, CHR 0xA0]
     \<or> e = [CHR 0xE1, CHR 0x9A, CHR 0x80]
     \<or> e = [CHR 0xE2, CHR 0x80, CHR 0x80] \<or> e = [CHR 0xE2, CHR 0x80, CHR 0x81]
     \<or> e = [CHR 0xE2, CHR 0x80, CHR 0x82] \<or> e = [CHR 0xE2, CHR 0x80, CHR 0x83]
     \<or> e = [CHR 0xE2, CHR 0x80, CHR 0x84] \<or> e = [CHR 0xE2, CHR 0x80, CHR 0x85]
     \<or> e = [CHR 0xE2, CHR 0x80, CHR 0x86] \<or> e = [CHR 0xE2, CHR 0x80, CHR 0x87]
     \<or> e = [CHR 0xE2, CHR 0x80, CHR 0x88] \<or> e = [CHR 0xE2, CHR 0x80, CHR 0x89]
     \<or> e = [CHR 0xE2, CHR 0x80, CHR 0x8A]
     \<or> e = [CHR 0xE2, CHR 0x80, CHR 0xA8] \<or> e = [CHR 0xE2, CHR 0x80, CHR 0xA9]
     \<or> e = [CHR 0xE2, CHR 0x80, CHR 0xAF]
     \<or> e = [CHR 0xE2, CHR 0x81, CHR 0x9F]
     \<or> e = [CHR 0xE3, CHR 0x80, CHR 0x80]"
    by (simp add: spaceEncodings_def)
  then show ?thesis
    by (elim disjE) (simp_all add: RuneStart_def RuneSelf_def)
qed

text \<open>Backward: a white-space encoding at the end decodes to a white-space rune of its length.\<close>

lemma decodeLast_spaceEncoding:
  assumes e: "e \<in> set spaceEncodings"
  shows "IsSpace (fst (DecodeLastRuneInString (t @ e)))
       \<and> snd (DecodeLastRuneInString (t @ e)) = length e"
proof -
  note fw = decode_spaceEncoding [OF e, of "[]", simplified]
  from spaceEncodings_shape [OF e] consider
      (one) c where "e = [c]" "(of_char c :: int) < RuneSelf"
    | (two) x y where "e = [x, y]" "RuneStart (of_char x)" "\<not> (of_char y :: int) < RuneSelf"
    | (three) x y z where "e = [x, y, z]" "RuneStart (of_char x)" "\<not> RuneStart (of_char y)"
        "\<not> (of_char z :: int) < RuneSelf"
    by blast
  then show ?thesis
  proof cases
    case one
    then have "DecodeLastRuneInString (t @ e) = (of_char c, 1)"
      using DecodeLast_ascii [of "t @ e"] by simp
    moreover from fw one have "IsSpace (of_char c)"
      by (simp add: DecodeRuneInString_def)
    ultimately show ?thesis using one by simp
  next
    case two
    from lastStart_2 [OF two(2), of t y] two(1) have ls: "lastStart (t @ e) = length t" by simp
    from two have nl: "\<not> (of_char (last (t @ e)) :: int) < RuneSelf" by simp
    from two have ne: "t @ e \<noteq> []" by simp
    from fw have "DecodeLastRuneInString (t @ e) = DecodeRuneInString e"
      unfolding DecodeLast_wide [OF ne nl] ls by simp
    with fw show ?thesis by simp
  next
    case three
    from lastStart_3 [OF three(2,3), of t z] three(1) have ls: "lastStart (t @ e) = length t"
      by simp
    from three have nl: "\<not> (of_char (last (t @ e)) :: int) < RuneSelf" by simp
    from three have ne: "t @ e \<noteq> []" by simp
    from fw have "DecodeLastRuneInString (t @ e) = DecodeRuneInString e"
      unfolding DecodeLast_wide [OF ne nl] ls by simp
    with fw show ?thesis by simp
  qed
qed

lemma spaceEncoding_start:
  assumes e: "e \<in> set spaceEncodings"
  shows "RuneStart (of_char (hd e))"
proof -
  from spaceEncodings_shape [OF e] consider
      (one) c where "e = [c]" "(of_char c :: int) < RuneSelf"
    | (two) x y where "e = [x, y]" "RuneStart (of_char x)"
    | (three) x y z where "e = [x, y, z]" "RuneStart (of_char x)"
    by blast
  then show ?thesis
  proof cases
    case one
    from one(2) have "\<not> (0x80 \<le> (of_char c :: int) \<and> (of_char c :: int) \<le> 0xBF)"
      by (simp add: RuneSelf_def)
    with RuneStart_char [of c] have "RuneStart (of_char c)" by blast
    with one(1) show ?thesis by simp
  next
    case two
    then show ?thesis by simp
  next
    case three
    then show ?thesis by simp
  qed
qed

lemma concat_spaces_start:
  assumes "set rs \<subseteq> set spaceEncodings"
  shows "concat rs = [] \<or> RuneStart (of_char (hd (concat rs)))"
proof (cases rs)
  case Nil
  then show ?thesis by simp
next
  case (Cons e rs')
  with assms have e: "e \<in> set spaceEncodings" by simp
  from spaceEncodings_nonempty [OF e] Cons have h: "hd (concat rs) = hd e" by simp
  from spaceEncoding_start [OF e] h show ?thesis by simp
qed

text \<open>
  The recomputation in \<^const>\<open>TrimRightFunc\<close>: at the index the backward decoder reports for
  the last rune of \<open>u\<close>, the forward decoder, run on \<open>u\<close> followed by the start of a rune
  or by nothing, steps to the end of \<open>u\<close>.
\<close>

lemma forward_from_last:
  assumes ne: "u \<noteq> []" and w: "w = [] \<or> RuneStart (of_char (hd w))"
  defines "i \<equiv> length u - snd (DecodeLastRuneInString u)"
  shows "(if RuneSelf \<le> of_char ((u @ w) ! i)
          then i + snd (DecodeRuneInString (drop i (u @ w))) else i + 1) = length u"
proof -
  from DecodeLastRuneInString_size [OF ne]
  have sz: "1 \<le> snd (DecodeLastRuneInString u)" "snd (DecodeLastRuneInString u) \<le> length u"
    by auto
  then have il: "i < length u" using ne by (simp add: i_def)
  then have nth: "(u @ w) ! i = u ! i" by (simp add: nth_append)
  have dr: "drop i (u @ w) = drop i u @ w" using il by simp
  show ?thesis
  proof (cases "snd (DecodeLastRuneInString u) = 1")
    case True
    then have i1: "i = length u - 1" by (simp add: i_def)
    with ne have ui: "u ! i = last u" by (simp add: last_conv_nth)
    from i1 ne have "drop i u = [last u]" by (cases u rule: rev_cases) auto
    with dr have d: "drop i (u @ w) = last u # w" by simp
    show ?thesis
    proof (cases "RuneSelf \<le> of_char (last u)")
      case True
      from decode_lone_byte [OF True w] d nth ui True i1 ne show ?thesis by simp
    next
      case False
      with nth ui i1 ne show ?thesis by simp
    qed
  next
    case False
    with sz have wide: "2 \<le> snd (DecodeLastRuneInString u)" by simp
    have nl: "\<not> (of_char (last u) :: int) < RuneSelf"
    proof
      assume "(of_char (last u) :: int) < RuneSelf"
      from DecodeLast_ascii [OF ne this] wide show False by simp
    qed
    let ?st = "lastStart u"
    let ?d = "DecodeRuneInString (drop ?st u)"
    note dw = DecodeLast_wide [OF ne nl]
    from dw wide have m: "?st + snd ?d = length u" by (auto split: if_splits)
    with dw have e: "DecodeLastRuneInString u = ?d" by simp
    from m e have ist: "i = ?st" by (simp add: i_def)
    from wide e have wd: "2 \<le> snd ?d" by simp
    from DecodeRuneInString_wide [OF wd] have "RuneSelf \<le> of_char (drop ?st u ! 0)" by blast
    moreover from lastStart_less [OF ne] have "drop ?st u ! 0 = u ! ?st" by simp
    ultimately have lead: "RuneSelf \<le> of_char ((u @ w) ! i)" using nth ist by simp
    from decode_append [OF wd, of w] dr ist
    have "snd (DecodeRuneInString (drop i (u @ w))) = snd ?d" by simp
    with lead m ist show ?thesis by simp
  qed
qed

text \<open>What the backward loop has stripped when it stops.\<close>

lemma lastIndexFunc_spaces:
  "\<exists>j rs. j \<le> length s \<and> s = take j s @ concat rs \<and> set rs \<subseteq> set spaceEncodings
      \<and> (if j = 0 then lastIndexFunc IsSpace s = - 1
          else \<not> IsSpace (fst (DecodeLastRuneInString (take j s)))
               \<and> lastIndexFunc IsSpace s
                   = int (j - snd (DecodeLastRuneInString (take j s))))"
proof (induction "IsSpace" s rule: lastIndexFunc.induct)
  case (1 s)
  show ?case
  proof (cases "s = []")
    case True
    then have "lastIndexFunc IsSpace s = - 1" by (subst lastIndexFunc.simps) simp
    with True have "0 \<le> length s \<and> s = take 0 s @ concat [] \<and> set [] \<subseteq> set spaceEncodings
      \<and> (if (0::nat) = 0 then lastIndexFunc IsSpace s = - 1
          else \<not> IsSpace (fst (DecodeLastRuneInString (take 0 s)))
               \<and> lastIndexFunc IsSpace s
                   = int (0 - snd (DecodeLastRuneInString (take 0 s))))"
      by simp
    then show ?thesis by blast
  next
    case False
    obtain r size where d: "DecodeLastRuneInString s = (r, size)"
      by (cases "DecodeLastRuneInString s")
    from DecodeLastRuneInString_size [OF False] d have sz: "1 \<le> size" "size \<le> length s"
      by auto
    define i where "i = length s - size"
    have ii: "int (length s) - int size = int i" using sz by (simp add: i_def)
    show ?thesis
    proof (cases "IsSpace r")
      case False
      with \<open>s \<noteq> []\<close> d ii have "lastIndexFunc IsSpace s = int i"
        by (subst lastIndexFunc.simps) (simp add: Let_def)
      with False d \<open>s \<noteq> []\<close> i_def
      have "length s \<le> length s \<and> s = take (length s) s @ concat []
        \<and> set [] \<subseteq> set spaceEncodings
        \<and> (if length s = 0 then lastIndexFunc IsSpace s = - 1
            else \<not> IsSpace (fst (DecodeLastRuneInString (take (length s) s)))
                 \<and> lastIndexFunc IsSpace s
                     = int (length s - snd (DecodeLastRuneInString (take (length s) s))))"
        by simp
      then show ?thesis by blast
    next
      case True
      with \<open>s \<noteq> []\<close> d ii have li: "lastIndexFunc IsSpace s = lastIndexFunc IsSpace (take i s)"
        by (subst lastIndexFunc.simps) (simp add: Let_def)
      have ni: "nat (int (length s) - int size) = i" using ii by simp
      have ih: "\<exists>j rs. j \<le> length (take i s) \<and> take i s = take j (take i s) @ concat rs
          \<and> set rs \<subseteq> set spaceEncodings
          \<and> (if j = 0 then lastIndexFunc IsSpace (take i s) = - 1
              else \<not> IsSpace (fst (DecodeLastRuneInString (take j (take i s))))
                   \<and> lastIndexFunc IsSpace (take i s)
                       = int (j - snd (DecodeLastRuneInString (take j (take i s)))))"
        using "1.hyps" [of "(r, size)" r size "int (length s) - int size"] \<open>s \<noteq> []\<close> d True
        unfolding ni by simp
      then obtain j rs where j: "j \<le> length (take i s)"
        and sp: "take i s = take j (take i s) @ concat rs"
        and rs: "set rs \<subseteq> set spaceEncodings"
        and res: "if j = 0 then lastIndexFunc IsSpace (take i s) = - 1
          else \<not> IsSpace (fst (DecodeLastRuneInString (take j (take i s))))
               \<and> lastIndexFunc IsSpace (take i s)
                   = int (j - snd (DecodeLastRuneInString (take j (take i s))))"
        by blast
      from j have ji: "j \<le> i" by simp
      then have tt: "take j (take i s) = take j s" by (simp add: min_def)
      from decodeLast_space_drop [OF \<open>s \<noteq> []\<close>] True d
      have e: "drop i s \<in> set spaceEncodings" by (simp add: i_def)
      have "s = take i s @ drop i s" by simp
      also have "\<dots> = (take j s @ concat rs) @ drop i s"
        using sp unfolding tt by (rule arg_cong)
      also have "\<dots> = take j s @ concat (rs @ [drop i s])" by simp
      finally have dec: "s = take j s @ concat (rs @ [drop i s])" .
      have "j \<le> length s" using ji by (simp add: i_def)
      moreover have "set (rs @ [drop i s]) \<subseteq> set spaceEncodings" using rs e by simp
      moreover have "if j = 0 then lastIndexFunc IsSpace s = - 1
          else \<not> IsSpace (fst (DecodeLastRuneInString (take j s)))
               \<and> lastIndexFunc IsSpace s
                   = int (j - snd (DecodeLastRuneInString (take j s)))"
        using res unfolding li tt .
      ultimately show ?thesis using dec by blast
    qed
  qed
qed

lemma TrimRightFunc_spaces:
  "\<exists>rs. s = TrimRightFunc IsSpace s @ concat rs \<and> set rs \<subseteq> set spaceEncodings
      \<and> (TrimRightFunc IsSpace s = []
          \<or> \<not> IsSpace (fst (DecodeLastRuneInString (TrimRightFunc IsSpace s))))"
proof -
  from lastIndexFunc_spaces [of s] obtain j rs where j: "j \<le> length s"
    and dec: "s = take j s @ concat rs" and rs: "set rs \<subseteq> set spaceEncodings"
    and res: "if j = 0 then lastIndexFunc IsSpace s = - 1
          else \<not> IsSpace (fst (DecodeLastRuneInString (take j s)))
               \<and> lastIndexFunc IsSpace s
                   = int (j - snd (DecodeLastRuneInString (take j s)))"
    by blast
  have t: "TrimRightFunc IsSpace s = take j s"
  proof (cases "j = 0")
    case True
    with res have "lastIndexFunc IsSpace s = - 1" by simp
    with True show ?thesis by (simp add: TrimRightFunc_def Let_def)
  next
    case False
    define u where "u = take j s"
    define k where "k = length u - snd (DecodeLastRuneInString u)"
    from False j have ne: "u \<noteq> []" and lu: "length u = j" by (auto simp: u_def)
    from res False lu have li: "lastIndexFunc IsSpace s = int k"
      by (simp add: k_def u_def)
    from dec have s: "s = u @ concat rs" by (simp add: u_def)
    note f = forward_from_last [OF ne concat_spaces_start [OF rs], folded k_def, folded s]
    have a: "nat (int k + int n) = k + n" for n by linarith
    have b: "nat (int k + 1) = Suc k" by linarith
    have "nat (if 0 \<le> int k \<and> RuneSelf \<le> of_char (s ! nat (int k))
               then int k + int (snd (DecodeRuneInString (drop (nat (int k)) s)))
               else int k + 1)
        = (if RuneSelf \<le> of_char (s ! k)
           then k + snd (DecodeRuneInString (drop k s)) else k + 1)"
      by (simp add: a b)
    also have "\<dots> = length u" by (rule f)
    finally have "nat (if 0 \<le> int k \<and> RuneSelf \<le> of_char (s ! nat (int k))
               then int k + int (snd (DecodeRuneInString (drop (nat (int k)) s)))
               else int k + 1) = j"
      unfolding lu .
    then show ?thesis unfolding TrimRightFunc_def Let_def li by (rule arg_cong)
  qed
  have "TrimRightFunc IsSpace s = []
      \<or> \<not> IsSpace (fst (DecodeLastRuneInString (TrimRightFunc IsSpace s)))"
  proof (cases "j = 0")
    case True
    with t show ?thesis by simp
  next
    case False
    with res t show ?thesis by simp
  qed
  with dec rs t show ?thesis by metis
qed

lemma TrimRightFunc_no_suffix:
  assumes "e \<in> set spaceEncodings"
  shows "\<not> suffix e (TrimRightFunc IsSpace s)"
proof
  assume "suffix e (TrimRightFunc IsSpace s)"
  then obtain t where t: "TrimRightFunc IsSpace s = t @ e" by (auto simp: suffix_def)
  with spaceEncodings_nonempty [OF assms] have "TrimRightFunc IsSpace s \<noteq> []" by simp
  with TrimRightFunc_spaces [of s]
  have "\<not> IsSpace (fst (DecodeLastRuneInString (TrimRightFunc IsSpace s)))" by blast
  with decodeLast_spaceEncoding [OF assms, of t] t show False by simp
qed

text \<open>
  What \<^const>\<open>TrimSpace\<close> does, said without the decoders: it removes a run of white-space
  encodings from the front and one from the back, and what it returns neither starts nor
  ends with a white-space encoding.
\<close>

lemma TrimSpace_spaces:
  "\<exists>ls rs. s = concat ls @ TrimSpace s @ concat rs
      \<and> set ls \<subseteq> set spaceEncodings \<and> set rs \<subseteq> set spaceEncodings"
proof -
  from TrimLeftFunc_spaces [of s] obtain ls where
    ls: "s = concat ls @ TrimLeftFunc IsSpace s" "set ls \<subseteq> set spaceEncodings" by blast
  from TrimRightFunc_spaces [of "TrimLeftFunc IsSpace s"] obtain rs where
    rs: "TrimLeftFunc IsSpace s = TrimSpace s @ concat rs" "set rs \<subseteq> set spaceEncodings"
    unfolding TrimSpace_def TrimFunc_def by blast
  from ls(1) rs(1) have "s = concat ls @ TrimSpace s @ concat rs" by simp
  with ls(2) rs(2) show ?thesis by blast
qed

lemma TrimSpace_no_space:
  assumes "e \<in> set spaceEncodings"
  shows "\<not> prefix e (TrimSpace s) \<and> \<not> suffix e (TrimSpace s)"
proof
  show "\<not> prefix e (TrimSpace s)"
  proof
    assume p: "prefix e (TrimSpace s)"
    from TrimRightFunc_spaces [of "TrimLeftFunc IsSpace s"]
    have "prefix (TrimSpace s) (TrimLeftFunc IsSpace s)"
      unfolding TrimSpace_def TrimFunc_def by (metis prefixI)
    with p have "prefix e (TrimLeftFunc IsSpace s)" by (rule prefix_order.trans)
    with TrimLeftFunc_no_prefix [OF assms] show False by blast
  qed
  show "\<not> suffix e (TrimSpace s)"
    unfolding TrimSpace_def TrimFunc_def by (rule TrimRightFunc_no_suffix [OF assms])
qed


section \<open>The sidecar container builder\<close>

text \<open>
  \<^verbatim>\<open>func (h *Handler) connectSidecar(pod *corev1.Pod) corev1.Container\<close> of
  \<^verbatim>\<open>connect-inject/connect_sidecar.go\<close>. The package constant \<^verbatim>\<open>volumeName\<close> is
  declared in another file of the package and nothing here fixes its value: it is the
  first parameter. \<^verbatim>\<open>pod.Annotations\<close> is the field of the embedded \<^verbatim>\<open>ObjectMeta\<close>.
\<close>

definition connectSidecar ::
    "string \<Rightarrow> 'h Handler_scheme \<Rightarrow> 'p Pod_scheme \<Rightarrow> Container" where
  "connectSidecar volumeName h pod =
     (let command =
            [''consul-k8s'',
             ''connect-sidecar'',
             ''-service-config'', ''/consul/connect-inject/service.hcl''];
          command =
            (if AuthMethod h \<noteq> []
             then command @ [''-token-file=/consul/connect-inject/acl-token'']
             else command);
          command =
            (case Annotations (ObjectMeta pod) annotationSyncPeriod of
               Some period \<Rightarrow> command @ [''-sync-period='' @ TrimSpace period]
             | None \<Rightarrow> command)
      in \<lparr>Container.Name = ''consul-connect-sidecar'',
          Image = ImageConsulK8s h,
          Env =
            [\<lparr>EnvVar.Name = ''HOST_IP'',
              Value = [],
              ValueFrom = Some \<lparr>FieldRef = Some \<lparr>FieldPath = ''status.hostIP''\<rparr>\<rparr>\<rparr>,
             \<lparr>EnvVar.Name = ''CONSUL_HTTP_ADDR'',
              Value = ''$(HOST_IP):8500'',
              ValueFrom = None\<rparr>],
          VolumeMounts =
            [\<lparr>VolumeMount.Name = volumeName,
              MountPath = ''/consul/connect-inject''\<rparr>],
          Command = command\<rparr>)"

text \<open>
  The inputs of the package's tests: the handler with the image
  \<^verbatim>\<open>hashicorp/consul-k8s:9.9.9\<close> and a given auth method, the pod with the one container
  \<^verbatim>\<open>web\<close>, and that pod with given annotations.
\<close>

definition test_handler :: "string \<Rightarrow> Handler" where
  "test_handler authMethod =
     \<lparr>ImageConsulK8s = ''hashicorp/consul-k8s:9.9.9'', AuthMethod = authMethod\<rparr>"

definition test_pod :: "(string \<rightharpoonup> string) \<Rightarrow> Pod" where
  "test_pod annotations =
     \<lparr>ObjectMeta =
        \<lparr>ObjectMeta.Name = [], Namespace = [], Labels = Map.empty,
         Annotations = annotations\<rparr>,
      Spec =
        \<lparr>Containers =
           [\<lparr>Container.Name = ''web'', Image = [], Env = [], VolumeMounts = [],
             Command = []\<rparr>],
         InitContainers = []\<rparr>\<rparr>"


text \<open>
  A sync period wrapped in white space: a tab and a no-break space (U+00A0) before
  \<^verbatim>\<open>1m30s\<close>, a space and an ideographic space (U+3000) after it.
\<close>

definition test_period :: string where
  "test_period =
     [CHR 0x09, CHR 0xC2, CHR 0xA0, CHR ''1'', CHR ''m'', CHR ''3'', CHR ''0'', CHR ''s'',
      CHR '' '', CHR 0xE3, CHR 0x80, CHR 0x80]"


section \<open>The call in the program's memory\<close>

text \<open>
  The same function as the Go program runs it, for the claims about what the call does
  beyond returning a value. The receiver \<^verbatim>\<open>h\<close> and the argument \<^verbatim>\<open>pod\<close> are pointers:
  the memory holds, for each, nothing (the nil pointer) or the value it points to, and a
  record scheme stands for the rest of the program's memory. The frame of the call holds
  the memory and the local variable \<^verbatim>\<open>command\<close>. Reading a field through a nil pointer
  panics; every assignment of the function is an update of the frame.
\<close>

datatype panic = NilPointerDereference

record ('h, 'p) memory =
  h_ptr :: "'h Handler_scheme option"
  pod_ptr :: "'p Pod_scheme option"

record ('h, 'p, 'w) frame =
  mem :: "('h, 'p, 'w) memory_scheme"
  command :: "string list"

definition connectSidecar_call ::
    "string \<Rightarrow> ('h, 'p, 'w) memory_scheme
       \<Rightarrow> panic + Container \<times> ('h, 'p, 'w) memory_scheme" where
  "connectSidecar_call volumeName m =
     (let fr = \<lparr>mem = m,
                command =
                  [''consul-k8s'',
                   ''connect-sidecar'',
                   ''-service-config'', ''/consul/connect-inject/service.hcl'']\<rparr>
      in case h_ptr (mem fr) of
           None \<Rightarrow> Inl NilPointerDereference
         | Some h \<Rightarrow>
             let fr =
                   (if AuthMethod h \<noteq> []
                    then fr\<lparr>command :=
                           command fr @ [''-token-file=/consul/connect-inject/acl-token'']\<rparr>
                    else fr)
             in case pod_ptr (mem fr) of
                  None \<Rightarrow> Inl NilPointerDereference
                | Some pod \<Rightarrow>
                    let fr =
                          (case Annotations (ObjectMeta pod) annotationSyncPeriod of
                             Some period \<Rightarrow>
                               fr\<lparr>command :=
                                    command fr @ [''-sync-period='' @ TrimSpace period]\<rparr>
                           | None \<Rightarrow> fr)
                    in case h_ptr (mem fr) of
                         None \<Rightarrow> Inl NilPointerDereference
                       | Some h \<Rightarrow>
                           Inr (\<lparr>Container.Name = ''consul-connect-sidecar'',
                                 Image = ImageConsulK8s h,
                                 Env =
                                   [\<lparr>EnvVar.Name = ''HOST_IP'',
                                     Value = [],
                                     ValueFrom =
                                       Some \<lparr>FieldRef =
                                         Some \<lparr>FieldPath = ''status.hostIP''\<rparr>\<rparr>\<rparr>,
                                    \<lparr>EnvVar.Name = ''CONSUL_HTTP_ADDR'',
                                     Value = ''$(HOST_IP):8500'',
                                     ValueFrom = None\<rparr>],
                                 VolumeMounts =
                                   [\<lparr>VolumeMount.Name = volumeName,
                                     MountPath = ''/consul/connect-inject''\<rparr>],
                                 Command = command fr\<rparr>,
                                mem fr))"

text \<open>A memory for the inputs of the tests, with a given rest.\<close>

definition test_memory :: "string \<Rightarrow> (string \<rightharpoonup> string) \<Rightarrow> 'w \<Rightarrow> (unit, unit, 'w) memory_scheme" where
  "test_memory authMethod annotations rest =
     \<lparr>h_ptr = Some (test_handler authMethod), pod_ptr = Some (test_pod annotations),
      \<dots> = rest\<rparr>"


section \<open>The synchronisation command\<close>

text \<open>
  The command that keeps the two declared services registered is specified in sections 3
  to 7 of the specification. Its source is not among the sources, its test
  \<^verbatim>\<open>subcommand/connect-sidecar/command_test.go\<close> is. The definitions of this section follow
  the specification's words; time is not modelled, a run is a sequence of events.
\<close>

text \<open>
  Modelled from the spec: the kind of a service declaration, \<^verbatim>\<open>{normal,
  mesh-proxy}\<close> (section 3). The command's source,
  \<^verbatim>\<open>subcommand/connect-sidecar/command.go\<close>, is not among the sources;
  only its test is.
\<close>

datatype kind = Normal | MeshProxy

text \<open>
  Modelled from the spec: the optional proxy configuration of a declaration (section 3).
\<close>

record ProxyConfig =
  destinationServiceName :: string
  destinationServiceId :: string
  localServicePort :: int

text \<open>
  Modelled from the spec: a service declaration with its id, name, port, kind and optional
  proxy configuration (section 3).
\<close>

record ServiceDeclaration =
  svc_id :: string
  svc_name :: string
  svc_port :: int
  svc_kind :: kind
  svc_proxyConfig :: "ProxyConfig option"

text \<open>
  Modelled from the spec: the two operations of the registry client,
  \<^verbatim>\<open>RegisterService(ServiceDeclaration)\<close> and
  \<^verbatim>\<open>DeregisterService(id)\<close> (section 6).
\<close>

datatype RegistryCall = RegisterService ServiceDeclaration | DeregisterService string

text \<open>
  Modelled from the spec: the states of the engine, \<^verbatim>\<open>{Idle, Running,
  Stopping, Stopped}\<close> (section 4.1).
\<close>

datatype phase = Idle | Running | Stopping | Stopped

text \<open>
  Modelled from the spec: the state of a run (section 3): the declarations, the sync interval,
  the one-shot cancellation signal (\<open>cancelled\<close>) with the single-fire latch that
  guards its close (section 9), the last attempt's outcome; with them the engine's state,
  whether the registry endpoint answers at present, the registry calls made so far (oldest
  first), the number of teardown passes and the outcome of the teardown.
\<close>

record SyncState =
  declarations :: "ServiceDeclaration list"
  interval :: nat
  latch :: bool
  cancelled :: bool
  phase :: phase
  lastOutcome :: "bool option"
  reachable :: bool
  calls :: "RegistryCall list"
  teardowns :: nat
  teardownOutcome :: "bool option"

text \<open>
  Modelled from the spec: what closing the cancellation signal a second time would be, the
  failure that the latch is there to exclude (sections 4.2 and 9).
\<close>

datatype signal_error = CloseOfClosedSignal

text \<open>
  Modelled from the spec: what happens to a running command, one event at a time: the external
  interrupt is fired; the loop's wait between attempts returns (the interval has elapsed or
  the signal has fired, whichever is first, section 5); the registry endpoint starts or stops
  answering (section 6).
\<close>

datatype event = Interrupt | Wake | RegistryUp | RegistryDown

text \<open>
  Modelled from the spec: the state created at command start from the loaded declarations and
  the requested interval (section 3), the signal not fired, no call made.
\<close>

definition initState :: "ServiceDeclaration list \<Rightarrow> nat \<Rightarrow> bool \<Rightarrow> SyncState" where
  "initState svcs ival up =
     \<lparr>declarations = svcs, interval = ival, latch = False, cancelled = False, phase = Idle,
      lastOutcome = None, reachable = up, calls = [], teardowns = 0,
      teardownOutcome = None\<rparr>"

text \<open>
  Modelled from the spec: one call of the registry client: it is made, and it succeeds when
  the endpoint answers (an unreachable endpoint is an error of the call, section 6).
\<close>

definition registryCall :: "RegistryCall \<Rightarrow> SyncState \<Rightarrow> SyncState \<times> bool" where
  "registryCall c s = (s\<lparr>calls := calls s @ [c]\<rparr>, reachable s)"

text \<open>
  Modelled from the spec: the registration calls of one attempt, one declaration after the
  other in input order; the attempt fails as a whole if a call fails (section 4.1).
\<close>

fun registerEach :: "ServiceDeclaration list \<Rightarrow> SyncState \<Rightarrow> SyncState \<times> bool" where
  "registerEach [] s = (s, True)"
| "registerEach (d # ds) s =
     (let (s, ok) = registryCall (RegisterService d) s;
          (s, oks) = registerEach ds s
      in (s, ok \<and> oks))"

text \<open>
  Modelled from the spec: the operation \<^verbatim>\<open>runOnce()\<close> (section 4.1):
  register each declaration in order and keep the outcome of the attempt.
\<close>

definition runOnce :: "SyncState \<Rightarrow> SyncState" where
  "runOnce s = (let (s, ok) = registerEach (declarations s) s in s\<lparr>lastOutcome := Some ok\<rparr>)"

text \<open>
  Modelled from the spec: the deregistration calls of the teardown, one declaration after the
  other; failures are not retried (section 4.1).
\<close>

fun deregisterEach :: "ServiceDeclaration list \<Rightarrow> SyncState \<Rightarrow> SyncState \<times> bool" where
  "deregisterEach [] s = (s, True)"
| "deregisterEach (d # ds) s =
     (let (s, ok) = registryCall (DeregisterService (svc_id d)) s;
          (s, oks) = deregisterEach ds s
      in (s, ok \<and> oks))"

text \<open>
  Modelled from the spec: the operation \<^verbatim>\<open>deregisterAll()\<close> (section
  4.1): one best-effort teardown pass, counted, its outcome kept.
\<close>

definition deregisterAll :: "SyncState \<Rightarrow> SyncState" where
  "deregisterAll s =
     (let (s, ok) = deregisterEach (declarations s) s
      in s\<lparr>teardowns := teardowns s + 1, teardownOutcome := Some ok\<rparr>)"

text \<open>
  Modelled from the spec: the transition \<^verbatim>\<open>Idle \<rightarrow>
  Running\<close>, which performs the first \<^verbatim>\<open>runOnce()\<close> immediately
  (section 4.1).
\<close>

definition start :: "SyncState \<Rightarrow> SyncState" where
  "start s = (if phase s = Idle then runOnce (s\<lparr>phase := Running\<rparr>) else s)"

text \<open>
  Modelled from the spec: closing the one-shot cancellation signal, which takes a running
  engine to \<^verbatim>\<open>Stopping\<close> (section 4.1); closing it twice is the
  failure.
\<close>

definition closeSignal :: "SyncState \<Rightarrow> signal_error + SyncState" where
  "closeSignal s =
     (if cancelled s then Inl CloseOfClosedSignal
      else Inr (s\<lparr>cancelled := True,
                  phase := (if phase s = Running then Stopping else phase s)\<rparr>))"

text \<open>
  Modelled from the spec: the interrupt operation, guarded by the single-fire latch so that a
  second close is a no-op (sections 4.2 and 9).
\<close>

definition interrupt :: "SyncState \<Rightarrow> signal_error + SyncState" where
  "interrupt s = (if latch s then Inr s else closeSignal (s\<lparr>latch := True\<rparr>))"

text \<open>
  Modelled from the spec: what the loop does when its wait returns (sections 4.1 and 4.2): a
  running engine makes its next attempt; a stopping engine performs one
  \<^verbatim>\<open>deregisterAll()\<close> and is stopped; a stopped engine does nothing.
\<close>

definition wake :: "SyncState \<Rightarrow> SyncState" where
  "wake s =
     (case phase s of
        Running \<Rightarrow> runOnce s
      | Stopping \<Rightarrow> (deregisterAll s)\<lparr>phase := Stopped\<rparr>
      | _ \<Rightarrow> s)"

text \<open>
  Modelled from the spec: the effect of one event on the state.
\<close>

fun step :: "event \<Rightarrow> SyncState \<Rightarrow> signal_error + SyncState" where
  "step Interrupt s = interrupt s"
| "step Wake s = Inr (wake s)"
| "step RegistryUp s = Inr (s\<lparr>reachable := True\<rparr>)"
| "step RegistryDown s = Inr (s\<lparr>reachable := False\<rparr>)"

text \<open>
  Modelled from the spec: the effect of a sequence of events, stopping at a failure.
\<close>

fun exec :: "event list \<Rightarrow> SyncState \<Rightarrow> signal_error + SyncState" where
  "exec [] s = Inr s"
| "exec (e # es) s = (case step e s of Inl err \<Rightarrow> Inl err | Inr s' \<Rightarrow> exec es s')"

text \<open>
  Modelled from the spec: the command surface (section 6): a registry address, the path of the
  declarative input and the sync interval as a duration string. The names are those of the
  flags in \<^verbatim>\<open>command_test.go\<close>.
\<close>

record Flags =
  flagHTTPAddr :: string
  flagServiceConfig :: string
  flagSyncPeriod :: string

text \<open>
  Modelled from the spec: the external collaborators of the command (sections 2 and 6):
  reading a path (nothing when it is missing or unreadable), the service loader (a message on
  malformed syntax), the parser of duration strings. The spec's sections disagree on the
  terminal status after a teardown that failed (4.1 against 4.2 and 7), so that status is a
  parameter too.
\<close>

record Collaborators =
  readFile :: "string \<Rightarrow> string option"
  loadServices :: "string \<Rightarrow> string + ServiceDeclaration list"
  parseDuration :: "string \<Rightarrow> string + nat"
  teardownFailureStatus :: int

text \<open>
  Modelled from the spec: the configuration errors (section 7): missing path, unparsable
  interval, unreadable path, malformed input, wrong declaration count.
\<close>

datatype ConfigError =
    ServiceConfigUnset
  | SyncPeriodInvalid string
  | ServiceConfigNotFound string
  | ServiceConfigMalformed string
  | WrongServiceCount nat

text \<open>
  Modelled from the spec: the descriptive error of each configuration error (section 6); the
  texts are the ones \<^verbatim>\<open>command_test.go\<close> expects.
\<close>

fun errorMessage :: "ConfigError \<Rightarrow> string" where
  "errorMessage ServiceConfigUnset = ''-service-config must be set''"
| "errorMessage (SyncPeriodInvalid e) = ''-sync-period is invalid: '' @ e"
| "errorMessage (ServiceConfigNotFound p) =
     ''-service-config file '' @ [CHR 0x22] @ p @ [CHR 0x22] @ '' not found''"
| "errorMessage (ServiceConfigMalformed e) = e"
| "errorMessage (WrongServiceCount n) = ''expected 2 services to be defined''"

text \<open>
  Modelled from the spec: the initial configuration step of the run (sections 4.2, 6 and 7).
  \<^verbatim>\<open>TestRun_FlagValidation\<close> reports the unparsable interval for a path
  that does not exist, so the interval is checked before the file is read.
\<close>

definition loadConfig ::
    "Collaborators \<Rightarrow> Flags \<Rightarrow> ConfigError + ServiceDeclaration list \<times> nat" where
  "loadConfig env flags =
     (if flagServiceConfig flags = [] then Inl ServiceConfigUnset
      else case parseDuration env (flagSyncPeriod flags) of
        Inl e \<Rightarrow> Inl (SyncPeriodInvalid e)
      | Inr syncPeriod \<Rightarrow>
          (case readFile env (flagServiceConfig flags) of
             None \<Rightarrow> Inl (ServiceConfigNotFound (flagServiceConfig flags))
           | Some contents \<Rightarrow>
               (case loadServices env contents of
                  Inl e \<Rightarrow> Inl (ServiceConfigMalformed e)
                | Inr svcs \<Rightarrow>
                    if length svcs \<noteq> 2 then Inl (WrongServiceCount (length svcs))
                    else Inr (svcs, syncPeriod))))"

text \<open>
  Modelled from the spec: what a run leaves behind: its terminal status (none while the
  command has not returned), the errors it reported, the registry calls it made, the teardown
  passes and the outcome of the teardown.
\<close>

record RunResult =
  status :: "int option"
  errors :: "string list"
  registryCalls :: "RegistryCall list"
  teardownPasses :: nat
  teardownClean :: "bool option"

text \<open>
  Modelled from the spec: the result of a fatal configuration error (section 7): a non-zero
  status (\<^verbatim>\<open>1\<close> in \<^verbatim>\<open>command_test.go\<close>), the
  error, no registry interaction.
\<close>

definition failed :: "ConfigError \<Rightarrow> RunResult" where
  "failed e =
     \<lparr>status = Some 1, errors = [errorMessage e], registryCalls = [], teardownPasses = 0,
      teardownClean = None\<rparr>"

text \<open>
  Modelled from the spec: the terminal status (sections 4.1, 4.2 and 6): none before the
  engine is stopped, zero after a clean interrupt-driven shutdown.
\<close>

definition exitStatus :: "Collaborators \<Rightarrow> SyncState \<Rightarrow> int option" where
  "exitStatus env s =
     (if phase s = Stopped
      then Some (if teardownOutcome s = Some True then 0 else teardownFailureStatus env)
      else None)"

text \<open>
  Modelled from the spec: the run entry point (section 4.2): a configuration error returns at
  once; otherwise the engine is started and the events of the run take their course. The third
  argument says whether the registry endpoint answers at the start.
\<close>

definition Run ::
    "Collaborators \<Rightarrow> Flags \<Rightarrow> bool \<Rightarrow> event list \<Rightarrow> signal_error + RunResult" where
  "Run env flags up events =
     (case loadConfig env flags of
        Inl e \<Rightarrow> Inr (failed e)
      | Inr (svcs, syncPeriod) \<Rightarrow>
          (case exec events (start (initState svcs syncPeriod up)) of
             Inl err \<Rightarrow> Inl err
           | Inr s \<Rightarrow>
               Inr \<lparr>status = exitStatus env s, errors = [], registryCalls = calls s,
                    teardownPasses = teardowns s, teardownClean = teardownOutcome s\<rparr>))"

text \<open>
  The states a started command can be in: the engine has left \<^verbatim>\<open>Idle\<close>, the signal is
  closed exactly when the latch is set, which is exactly when the engine is stopping or
  stopped, and the teardown has run once exactly when the engine is stopped.
\<close>

definition started :: "SyncState \<Rightarrow> bool" where
  "started s \<longleftrightarrow>
     phase s \<noteq> Idle \<and> cancelled s = latch s
     \<and> latch s = (phase s = Stopping \<or> phase s = Stopped)
     \<and> teardowns s = (if phase s = Stopped then 1 else 0)
     \<and> (phase s = Stopped) = (teardownOutcome s \<noteq> None)"

text \<open>
  The inputs of \<^verbatim>\<open>command_test.go\<close>: the two declarations of
  \<^verbatim>\<open>servicesRegistration\<close>; collaborators for which the path \<^verbatim>\<open>empty.hcl\<close> holds the
  empty input, \<^verbatim>\<open>svc.hcl\<close> holds the two declarations and no other path exists, and
  for which \<^verbatim>\<open>100ms\<close> is the one duration that parses; and the flags of a run.
\<close>

definition test_services :: "ServiceDeclaration list" where
  "test_services =
     [\<lparr>svc_id = ''service-id'', svc_name = ''service'', svc_port = 80, svc_kind = Normal,
       svc_proxyConfig = None\<rparr>,
      \<lparr>svc_id = ''service-id-sidecar-proxy'', svc_name = ''service-sidecar-proxy'',
       svc_port = 2000, svc_kind = MeshProxy,
       svc_proxyConfig =
         Some \<lparr>destinationServiceName = ''service'', destinationServiceId = ''service-id'',
               localServicePort = 80\<rparr>\<rparr>]"

definition test_collaborators :: Collaborators where
  "test_collaborators =
     \<lparr>readFile =
        (\<lambda>path. if path = ''empty.hcl'' then Some []
                else if path = ''svc.hcl'' then Some ''services''
                else None),
      loadServices =
        (\<lambda>contents. if contents = [] then Inr []
                    else if contents = ''services'' then Inr test_services
                    else Inl ''At 1:1: illegal char''),
      parseDuration =
        (\<lambda>d. if d = ''100ms'' then Inr 100 else Inl (''time: invalid duration '' @ d)),
      teardownFailureStatus = 1\<rparr>"

definition test_flags :: "string \<Rightarrow> string \<Rightarrow> Flags" where
  "test_flags serviceConfig syncPeriod =
     \<lparr>flagHTTPAddr = ''127.0.0.1:8500'', flagServiceConfig = serviceConfig,
      flagSyncPeriod = syncPeriod\<rparr>"


section \<open>Properties of the builder\<close>

text \<open>The command in closed form: the four fixed arguments, then the optional two.\<close>

lemma Command_connectSidecar:
  "Command (connectSidecar volumeName h pod) =
     [''consul-k8s'', ''connect-sidecar'',
      ''-service-config'', ''/consul/connect-inject/service.hcl'']
     @ (if AuthMethod h \<noteq> [] then [''-token-file=/consul/connect-inject/acl-token''] else [])
     @ (case Annotations (ObjectMeta pod) annotationSyncPeriod of
          Some period \<Rightarrow> [''-sync-period='' @ TrimSpace period]
        | None \<Rightarrow> [])"
  by (simp add: connectSidecar_def Let_def split: option.split)

text \<open>
  C1. With no auth method configured and no sync-period annotation on the pod, the
  command of the container is exactly
  \<^verbatim>\<open>["consul-k8s", "connect-sidecar", "-service-config", "/consul/connect-inject/service.hcl"]\<close>,
  the environment is \<^verbatim>\<open>HOST_IP\<close> taken from the field \<^verbatim>\<open>status.hostIP\<close> followed by
  \<^verbatim>\<open>CONSUL_HTTP_ADDR\<close> with the value \<^verbatim>\<open>$(HOST_IP):8500\<close>, and there is exactly one volume
  mount, at \<^verbatim>\<open>/consul/connect-inject\<close>.
\<close>

theorem connectSidecar_default:
  assumes "AuthMethod h = []"
    and "Annotations (ObjectMeta pod) annotationSyncPeriod = None"
  shows "Command (connectSidecar volumeName h pod) =
           [''consul-k8s'', ''connect-sidecar'',
            ''-service-config'', ''/consul/connect-inject/service.hcl'']
       \<and> Env (connectSidecar volumeName h pod) =
           [\<lparr>EnvVar.Name = ''HOST_IP'', Value = [],
             ValueFrom = Some \<lparr>FieldRef = Some \<lparr>FieldPath = ''status.hostIP''\<rparr>\<rparr>\<rparr>,
            \<lparr>EnvVar.Name = ''CONSUL_HTTP_ADDR'', Value = ''$(HOST_IP):8500'',
             ValueFrom = None\<rparr>]
       \<and> length (VolumeMounts (connectSidecar volumeName h pod)) = 1
       \<and> map MountPath (VolumeMounts (connectSidecar volumeName h pod)) =
           [''/consul/connect-inject'']"
  using assms by (simp add: connectSidecar_def)

theorem connectSidecar_default_witness:
  "AuthMethod (test_handler []) = []
   \<and> Annotations (ObjectMeta (test_pod Map.empty)) annotationSyncPeriod = None
   \<and> Command (connectSidecar ''consul-connect-inject-data'' (test_handler [])
         (test_pod Map.empty)) =
       [''consul-k8s'', ''connect-sidecar'',
        ''-service-config'', ''/consul/connect-inject/service.hcl'']
   \<and> Env (connectSidecar ''consul-connect-inject-data'' (test_handler [])
         (test_pod Map.empty)) =
       [\<lparr>EnvVar.Name = ''HOST_IP'', Value = [],
         ValueFrom = Some \<lparr>FieldRef = Some \<lparr>FieldPath = ''status.hostIP''\<rparr>\<rparr>\<rparr>,
        \<lparr>EnvVar.Name = ''CONSUL_HTTP_ADDR'', Value = ''$(HOST_IP):8500'',
         ValueFrom = None\<rparr>]
   \<and> length (VolumeMounts (connectSidecar ''consul-connect-inject-data'' (test_handler [])
         (test_pod Map.empty))) = 1
   \<and> map MountPath (VolumeMounts (connectSidecar ''consul-connect-inject-data''
         (test_handler []) (test_pod Map.empty))) =
       [''/consul/connect-inject'']"
proof -
  have a: "AuthMethod (test_handler []) = []"
    by (simp add: test_handler_def)
  have b: "Annotations (ObjectMeta (test_pod Map.empty)) annotationSyncPeriod = None"
    by (simp add: test_pod_def)
  from connectSidecar_default [OF a b, of "''consul-connect-inject-data''"] a b
  show ?thesis by simp
qed

text \<open>
  C2. The command contains the argument
  \<^verbatim>\<open>-token-file=/consul/connect-inject/acl-token\<close> exactly when the handler's auth method is
  not the empty string, whatever the pod.
\<close>

theorem connectSidecar_token_file:
  "''-token-file=/consul/connect-inject/acl-token''
       \<in> set (Command (connectSidecar volumeName h pod))
     \<longleftrightarrow> AuthMethod h \<noteq> []"
  by (simp add: Command_connectSidecar split: option.split)

theorem connectSidecar_token_file_witness:
  "''-token-file=/consul/connect-inject/acl-token''
       \<in> set (Command (connectSidecar ''consul-connect-inject-data''
                 (test_handler ''auth-method'') (test_pod Map.empty)))
   \<and> ''-token-file=/consul/connect-inject/acl-token''
       \<notin> set (Command (connectSidecar ''consul-connect-inject-data''
                 (test_handler []) (test_pod Map.empty)))"
  using connectSidecar_token_file
          [of "''consul-connect-inject-data''" "test_handler ''auth-method''"
              "test_pod Map.empty"]
        connectSidecar_token_file
          [of "''consul-connect-inject-data''" "test_handler []" "test_pod Map.empty"]
  by (simp add: test_handler_def)

text \<open>
  C3. The command contains an argument of the form \<^verbatim>\<open>-sync-period=<v>\<close> exactly when the
  pod carries the sync-period annotation. When it does, the only such \<open>v\<close> is the
  annotation's value with its leading and trailing white space trimmed: the value is a
  run of white-space encodings, then \<open>v\<close>, then a run of white-space encodings, and
  \<open>v\<close> itself neither starts nor ends with a white-space encoding. Nothing else is
  changed.
\<close>

lemma sync_period_arg:
  "''-sync-period='' @ v \<in> set (Command (connectSidecar volumeName h pod))
     \<longleftrightarrow> (\<exists>period. Annotations (ObjectMeta pod) annotationSyncPeriod = Some period
            \<and> v = TrimSpace period)"
proof (cases "Annotations (ObjectMeta pod) annotationSyncPeriod")
  case None
  then show ?thesis by (simp add: Command_connectSidecar)
next
  case (Some period)
  then show ?thesis by (simp add: Command_connectSidecar)
qed

theorem connectSidecar_sync_period:
  "((\<exists>v. ''-sync-period='' @ v \<in> set (Command (connectSidecar volumeName h pod)))
      \<longleftrightarrow> Annotations (ObjectMeta pod) annotationSyncPeriod \<noteq> None)
   \<and> (\<forall>period. Annotations (ObjectMeta pod) annotationSyncPeriod = Some period \<longrightarrow>
         (\<forall>v. ''-sync-period='' @ v \<in> set (Command (connectSidecar volumeName h pod))
                \<longleftrightarrow> v = TrimSpace period)
         \<and> (\<exists>ls rs. period = concat ls @ TrimSpace period @ concat rs
                \<and> set ls \<subseteq> set spaceEncodings \<and> set rs \<subseteq> set spaceEncodings)
         \<and> (\<forall>e\<in>set spaceEncodings.
                \<not> prefix e (TrimSpace period) \<and> \<not> suffix e (TrimSpace period)))"
proof (intro conjI allI impI ballI)
  show "(\<exists>v. ''-sync-period='' @ v \<in> set (Command (connectSidecar volumeName h pod)))
      \<longleftrightarrow> Annotations (ObjectMeta pod) annotationSyncPeriod \<noteq> None"
    unfolding sync_period_arg by auto
next
  fix period v
  assume "Annotations (ObjectMeta pod) annotationSyncPeriod = Some period"
  then show "''-sync-period='' @ v \<in> set (Command (connectSidecar volumeName h pod))
                \<longleftrightarrow> v = TrimSpace period"
    unfolding sync_period_arg by auto
next
  fix period
  show "\<exists>ls rs. period = concat ls @ TrimSpace period @ concat rs
      \<and> set ls \<subseteq> set spaceEncodings \<and> set rs \<subseteq> set spaceEncodings"
    by (rule TrimSpace_spaces)
next
  fix period e
  assume "e \<in> set spaceEncodings"
  then show "\<not> prefix e (TrimSpace period)" using TrimSpace_no_space by blast
next
  fix period e
  assume "e \<in> set spaceEncodings"
  then show "\<not> suffix e (TrimSpace period)" using TrimSpace_no_space by blast
qed

theorem connectSidecar_sync_period_witness:
  "Annotations (ObjectMeta (test_pod [''consul.hashicorp.com/connect-sync-period'' \<mapsto> ''55s'']))
       annotationSyncPeriod = Some ''55s''
   \<and> ''-sync-period=55s''
       \<in> set (Command (connectSidecar ''consul-connect-inject-data'' (test_handler [])
             (test_pod [''consul.hashicorp.com/connect-sync-period'' \<mapsto> ''55s''])))
   \<and> Annotations (ObjectMeta (test_pod [annotationSyncPeriod \<mapsto> test_period]))
       annotationSyncPeriod = Some test_period
   \<and> ''-sync-period=1m30s''
       \<in> set (Command (connectSidecar ''consul-connect-inject-data'' (test_handler [])
             (test_pod [annotationSyncPeriod \<mapsto> test_period])))
   \<and> \<not> (\<exists>v. ''-sync-period='' @ v
       \<in> set (Command (connectSidecar ''consul-connect-inject-data'' (test_handler [])
             (test_pod Map.empty))))"
proof -
  let ?P1 = "test_pod [''consul.hashicorp.com/connect-sync-period'' \<mapsto> ''55s'']"
  let ?P2 = "test_pod [annotationSyncPeriod \<mapsto> test_period]"
  let ?V = "''consul-connect-inject-data''"
  let ?H = "test_handler []"
  have a1: "Annotations (ObjectMeta ?P1) annotationSyncPeriod = Some ''55s''"
    by (simp add: test_pod_def annotationSyncPeriod_def)
  have a2: "Annotations (ObjectMeta ?P2) annotationSyncPeriod = Some test_period"
    by (simp add: test_pod_def)
  have a3: "\<not> Annotations (ObjectMeta (test_pod Map.empty)) annotationSyncPeriod \<noteq> None"
    by (simp add: test_pod_def)
  have t1: "''55s'' = TrimSpace ''55s''" by code_simp
  have t2: "''1m30s'' = TrimSpace test_period" by code_simp
  note arg1 = connectSidecar_sync_period [of ?V ?H ?P1, THEN conjunct2, rule_format, OF a1,
      THEN conjunct1, rule_format, of "''55s''"]
  note arg2 = connectSidecar_sync_period [of ?V ?H ?P2, THEN conjunct2, rule_format, OF a2,
      THEN conjunct1, rule_format, of "''1m30s''"]
  note none = connectSidecar_sync_period [of ?V ?H "test_pod Map.empty", THEN conjunct1]
  have c1: "''-sync-period='' @ ''55s'' \<in> set (Command (connectSidecar ?V ?H ?P1))"
    using arg1 t1 by (rule iffD2)
  have c2: "''-sync-period='' @ ''1m30s'' \<in> set (Command (connectSidecar ?V ?H ?P2))"
    using arg2 t2 by (rule iffD2)
  have c3: "\<not> (\<exists>v. ''-sync-period='' @ v
          \<in> set (Command (connectSidecar ?V ?H (test_pod Map.empty))))"
    unfolding none using a3 .
  from c1 have c1': "''-sync-period=55s'' \<in> set (Command (connectSidecar ?V ?H ?P1))" by simp
  from c2 have c2': "''-sync-period=1m30s'' \<in> set (Command (connectSidecar ?V ?H ?P2))" by simp
  from a1 c1' a2 c2' c3 show ?thesis by (intro conjI)
qed

text \<open>
  The call returns whenever neither pointer is nil, with the container that
  \<^const>\<open>connectSidecar\<close> computes from the two values pointed to; the memory it returns is
  the memory it was given; it panics exactly when a pointer is nil.
\<close>

lemma connectSidecar_call_returns:
  "h_ptr m = Some h \<Longrightarrow> pod_ptr m = Some pod \<Longrightarrow>
     connectSidecar_call volumeName m = Inr (connectSidecar volumeName h pod, m)"
  by (simp add: connectSidecar_call_def connectSidecar_def Let_def split: option.split)

lemma connectSidecar_call_frame:
  "connectSidecar_call volumeName m = Inr (c, m') \<Longrightarrow> m' = m"
  by (auto simp add: connectSidecar_call_def Let_def split: option.splits if_splits)

lemma connectSidecar_call_panics:
  "connectSidecar_call volumeName m = Inl NilPointerDereference
     \<longleftrightarrow> (h_ptr m = None \<or> pod_ptr m = None)"
  by (auto simp add: connectSidecar_call_def Let_def split: option.splits if_splits)

text \<open>
  C4. The builder is deterministic and has no effect but its result: two calls, in
  memories that hold the same handler and the same pod and may differ in everything
  else, both return, return the same container, and each leaves its whole memory as it
  was.
\<close>

theorem connectSidecar_deterministic:
  assumes "h_ptr m1 = Some h" and "h_ptr m2 = Some h"
    and "pod_ptr m1 = Some pod" and "pod_ptr m2 = Some pod"
  shows "connectSidecar_call volumeName m1 = Inr (connectSidecar volumeName h pod, m1)
       \<and> connectSidecar_call volumeName m2 = Inr (connectSidecar volumeName h pod, m2)"
  using assms by (simp add: connectSidecar_call_returns)

theorem connectSidecar_deterministic_witness:
  "h_ptr (test_memory ''auth-method'' Map.empty (0::nat)) = Some (test_handler ''auth-method'')
   \<and> h_ptr (test_memory ''auth-method'' Map.empty (7::nat)) = Some (test_handler ''auth-method'')
   \<and> pod_ptr (test_memory ''auth-method'' Map.empty (0::nat)) = Some (test_pod Map.empty)
   \<and> pod_ptr (test_memory ''auth-method'' Map.empty (7::nat)) = Some (test_pod Map.empty)
   \<and> connectSidecar_call ''consul-connect-inject-data''
         (test_memory ''auth-method'' Map.empty (0::nat))
       = Inr (connectSidecar ''consul-connect-inject-data'' (test_handler ''auth-method'')
                (test_pod Map.empty),
              test_memory ''auth-method'' Map.empty 0)
   \<and> connectSidecar_call ''consul-connect-inject-data''
         (test_memory ''auth-method'' Map.empty (7::nat))
       = Inr (connectSidecar ''consul-connect-inject-data'' (test_handler ''auth-method'')
                (test_pod Map.empty),
              test_memory ''auth-method'' Map.empty 7)"
proof -
  let ?m1 = "test_memory ''auth-method'' Map.empty (0::nat)"
  let ?m2 = "test_memory ''auth-method'' Map.empty (7::nat)"
  have a: "h_ptr ?m1 = Some (test_handler ''auth-method'')"
    and b: "h_ptr ?m2 = Some (test_handler ''auth-method'')"
    and c: "pod_ptr ?m1 = Some (test_pod Map.empty)"
    and d: "pod_ptr ?m2 = Some (test_pod Map.empty)"
    by (simp_all add: test_memory_def)
  from a b c d connectSidecar_deterministic [OF a b c d, of "''consul-connect-inject-data''"]
  show ?thesis by simp
qed

text \<open>
  C9. The result depends only on the handler's \<^verbatim>\<open>AuthMethod\<close> and \<^verbatim>\<open>ImageConsulK8s\<close>
  and on the pod's sync-period annotation: two handlers that agree on the two fields and
  two pods whose annotations agree on that key give equal containers, whatever else the
  handlers and the pods carry.
\<close>

theorem connectSidecar_depends_only:
  assumes "AuthMethod h1 = AuthMethod h2"
    and "ImageConsulK8s h1 = ImageConsulK8s h2"
    and "Annotations (ObjectMeta p1) annotationSyncPeriod
           = Annotations (ObjectMeta p2) annotationSyncPeriod"
  shows "connectSidecar volumeName h1 p1 = connectSidecar volumeName h2 p2"
  using assms by (simp add: connectSidecar_def)

theorem connectSidecar_depends_only_witness:
  "AuthMethod (test_handler ''auth-method'')
     = AuthMethod \<lparr>ImageConsulK8s = ''hashicorp/consul-k8s:9.9.9'', AuthMethod = ''auth-method'',
         \<dots> = ''a logger''\<rparr>
   \<and> ImageConsulK8s (test_handler ''auth-method'')
     = ImageConsulK8s \<lparr>ImageConsulK8s = ''hashicorp/consul-k8s:9.9.9'',
         AuthMethod = ''auth-method'', \<dots> = ''a logger''\<rparr>
   \<and> Annotations (ObjectMeta (test_pod [annotationSyncPeriod \<mapsto> ''55s''])) annotationSyncPeriod
     = Annotations (ObjectMeta
         \<lparr>ObjectMeta =
            \<lparr>ObjectMeta.Name = ''other'', Namespace = ''default'',
             Labels = [''app'' \<mapsto> ''web''],
             Annotations = [''consul.hashicorp.com/connect-inject'' \<mapsto> ''true'',
                            annotationSyncPeriod \<mapsto> ''55s'']\<rparr>,
          Spec = \<lparr>Containers = [], InitContainers = []\<rparr>\<rparr>) annotationSyncPeriod
   \<and> connectSidecar ''consul-connect-inject-data'' (test_handler ''auth-method'')
         (test_pod [annotationSyncPeriod \<mapsto> ''55s''])
     = connectSidecar ''consul-connect-inject-data''
         \<lparr>ImageConsulK8s = ''hashicorp/consul-k8s:9.9.9'', AuthMethod = ''auth-method'',
          \<dots> = ''a logger''\<rparr>
         \<lparr>ObjectMeta =
            \<lparr>ObjectMeta.Name = ''other'', Namespace = ''default'',
             Labels = [''app'' \<mapsto> ''web''],
             Annotations = [''consul.hashicorp.com/connect-inject'' \<mapsto> ''true'',
                            annotationSyncPeriod \<mapsto> ''55s'']\<rparr>,
          Spec = \<lparr>Containers = [], InitContainers = []\<rparr>\<rparr>"
proof -
  let ?h2 = "\<lparr>ImageConsulK8s = ''hashicorp/consul-k8s:9.9.9'', AuthMethod = ''auth-method'',
          \<dots> = ''a logger''\<rparr>"
  let ?p1 = "test_pod [annotationSyncPeriod \<mapsto> ''55s'']"
  let ?p2 = "\<lparr>ObjectMeta =
            \<lparr>ObjectMeta.Name = ''other'', Namespace = ''default'',
             Labels = [''app'' \<mapsto> ''web''],
             Annotations = [''consul.hashicorp.com/connect-inject'' \<mapsto> ''true'',
                            annotationSyncPeriod \<mapsto> ''55s'']\<rparr>,
          Spec = \<lparr>Containers = [], InitContainers = []\<rparr>\<rparr>"
  have a: "AuthMethod (test_handler ''auth-method'') = AuthMethod ?h2"
    and b: "ImageConsulK8s (test_handler ''auth-method'') = ImageConsulK8s ?h2"
    by (simp_all add: test_handler_def)
  have c: "Annotations (ObjectMeta ?p1) annotationSyncPeriod
             = Annotations (ObjectMeta ?p2) annotationSyncPeriod"
    by (simp add: test_pod_def)
  from a b c connectSidecar_depends_only [OF a b c, of "''consul-connect-inject-data''"]
  show ?thesis by (intro conjI)
qed

text \<open>
  C10. The builder never mutates its input: when the call returns, the memory is the
  one before the call, so the handler and the pod (metadata, annotations, spec) are
  unchanged; and the call does return when it is given a handler and a pod.
\<close>

theorem connectSidecar_inputs_unchanged:
  "(\<forall>c m'. connectSidecar_call volumeName m = Inr (c, m') \<longrightarrow>
       h_ptr m' = h_ptr m \<and> pod_ptr m' = pod_ptr m \<and> m' = m)
   \<and> (\<forall>h pod. h_ptr m = Some h \<and> pod_ptr m = Some pod \<longrightarrow>
         (\<exists>c. connectSidecar_call volumeName m = Inr (c, m)))"
  using connectSidecar_call_frame connectSidecar_call_returns by blast

theorem connectSidecar_inputs_unchanged_witness:
  "h_ptr (test_memory [] [annotationSyncPeriod \<mapsto> ''55s''] ()) = Some (test_handler [])
   \<and> pod_ptr (test_memory [] [annotationSyncPeriod \<mapsto> ''55s''] ())
       = Some (test_pod [annotationSyncPeriod \<mapsto> ''55s''])
   \<and> (\<exists>c. connectSidecar_call ''consul-connect-inject-data''
               (test_memory [] [annotationSyncPeriod \<mapsto> ''55s''] ())
             = Inr (c, test_memory [] [annotationSyncPeriod \<mapsto> ''55s''] ()))"
proof -
  let ?m = "test_memory [] [annotationSyncPeriod \<mapsto> ''55s''] ()"
  have a: "h_ptr ?m = Some (test_handler [])"
    and b: "pod_ptr ?m = Some (test_pod [annotationSyncPeriod \<mapsto> ''55s''])"
    by (simp_all add: test_memory_def)
  from a b have ab: "h_ptr ?m = Some (test_handler [])
      \<and> pod_ptr ?m = Some (test_pod [annotationSyncPeriod \<mapsto> ''55s''])" ..
  note ex = connectSidecar_inputs_unchanged [of "''consul-connect-inject-data''" ?m,
      THEN conjunct2, rule_format, OF ab]
  from a b ex show ?thesis by (intro conjI)
qed


section \<open>Properties of the synchronisation command\<close>

lemma registerEach_frame:
  "registerEach ds s = (s', ok) \<Longrightarrow>
     s' = s\<lparr>calls := calls s @ map RegisterService ds\<rparr> \<and> (ok \<longleftrightarrow> ds = [] \<or> reachable s)"
proof (induction ds arbitrary: s s' ok)
  case Nil
  then show ?case by simp
next
  case (Cons d ds)
  obtain s1 ok1 where r1: "registerEach ds (s\<lparr>calls := calls s @ [RegisterService d]\<rparr>) = (s1, ok1)"
    by (cases "registerEach ds (s\<lparr>calls := calls s @ [RegisterService d]\<rparr>)")
  from Cons.IH [OF r1] Cons.prems r1 show ?case
    by (auto simp: registryCall_def)
qed

lemma deregisterEach_frame:
  "deregisterEach ds s = (s', ok) \<Longrightarrow>
     s' = s\<lparr>calls := calls s @ map (\<lambda>d. DeregisterService (svc_id d)) ds\<rparr>
     \<and> (ok \<longleftrightarrow> ds = [] \<or> reachable s)"
proof (induction ds arbitrary: s s' ok)
  case Nil
  then show ?case by simp
next
  case (Cons d ds)
  obtain s1 ok1 where r1:
    "deregisterEach ds (s\<lparr>calls := calls s @ [DeregisterService (svc_id d)]\<rparr>) = (s1, ok1)"
    by (cases "deregisterEach ds (s\<lparr>calls := calls s @ [DeregisterService (svc_id d)]\<rparr>)")
  from Cons.IH [OF r1] Cons.prems r1 show ?case
    by (auto simp: registryCall_def)
qed

lemma runOnce_eq:
  "runOnce s = s\<lparr>calls := calls s @ map RegisterService (declarations s),
                  lastOutcome := Some (declarations s = [] \<or> reachable s)\<rparr>"
proof -
  obtain s' ok where r: "registerEach (declarations s) s = (s', ok)"
    by (cases "registerEach (declarations s) s")
  from registerEach_frame [OF r] r show ?thesis
    by (simp add: runOnce_def)
qed

lemma deregisterAll_eq:
  "deregisterAll s =
     s\<lparr>calls := calls s @ map (\<lambda>d. DeregisterService (svc_id d)) (declarations s),
       teardowns := teardowns s + 1,
       teardownOutcome := Some (declarations s = [] \<or> reachable s)\<rparr>"
proof -
  obtain s' ok where r: "deregisterEach (declarations s) s = (s', ok)"
    by (cases "deregisterEach (declarations s) s")
  from deregisterEach_frame [OF r] r show ?thesis
    by (simp add: deregisterAll_def)
qed


lemma started_start: "started (start (initState svcs ival up))"
  by (simp add: started_def start_def initState_def runOnce_eq)

lemma step_started:
  "started s \<Longrightarrow> \<exists>s'. step e s = Inr s' \<and> started s'"
  by (cases e; cases "phase s")
     (auto simp: started_def interrupt_def closeSignal_def wake_def runOnce_eq deregisterAll_eq)

lemma exec_started:
  "started s \<Longrightarrow> \<exists>s'. exec es s = Inr s' \<and> started s'"
proof (induction es arbitrary: s)
  case Nil
  then show ?case by simp
next
  case (Cons e es)
  from step_started [OF Cons.prems] obtain s1 where s1: "step e s = Inr s1" "started s1"
    by blast
  from Cons.IH [OF s1(2)] s1(1) show ?case by simp
qed

lemma exec_append:
  "exec (es @ es') s = (case exec es s of Inl err \<Rightarrow> Inl err | Inr s' \<Rightarrow> exec es' s')"
  by (induction es arbitrary: s) (auto split: sum.splits)

lemma step_latch:
  "started s \<Longrightarrow> step e s = Inr s' \<Longrightarrow> (latch s \<or> e = Interrupt) \<Longrightarrow> latch s'"
  by (cases e; cases "phase s")
     (auto simp: started_def interrupt_def closeSignal_def wake_def runOnce_eq deregisterAll_eq
           split: if_splits)

lemma exec_latch:
  "started s \<Longrightarrow> exec es s = Inr s' \<Longrightarrow> (latch s \<or> Interrupt \<in> set es) \<Longrightarrow> latch s'"
proof (induction es arbitrary: s)
  case Nil
  then show ?case by simp
next
  case (Cons e es)
  from step_started [OF Cons.prems(1)] obtain s1 where s1: "step e s = Inr s1" "started s1"
    by blast
  from Cons.prems(2) s1(1) have ex: "exec es s1 = Inr s'" by simp
  show ?case
  proof (cases "latch s \<or> e = Interrupt")
    case True
    with step_latch [OF Cons.prems(1) s1(1)] have "latch s1" by blast
    with Cons.IH [OF s1(2) ex] show ?thesis by blast
  next
    case False
    with Cons.prems(3) have "Interrupt \<in> set es" by auto
    with Cons.IH [OF s1(2) ex] show ?thesis by blast
  qed
qed

lemma wake_stops:
  "started s \<Longrightarrow> latch s \<Longrightarrow> phase (wake s) = Stopped"
  by (cases "phase s") (auto simp: started_def wake_def deregisterAll_eq)

lemma step_stopped:
  "phase s = Stopped \<Longrightarrow> started s \<Longrightarrow> step e s = Inr s' \<Longrightarrow>
     phase s' = Stopped \<and> teardowns s' = teardowns s \<and> teardownOutcome s' = teardownOutcome s
     \<and> calls s' = calls s"
  by (cases e) (auto simp: started_def interrupt_def wake_def)

lemma exec_stopped:
  "phase s = Stopped \<Longrightarrow> started s \<Longrightarrow> exec es s = Inr s' \<Longrightarrow>
     phase s' = Stopped \<and> teardowns s' = teardowns s \<and> teardownOutcome s' = teardownOutcome s
     \<and> calls s' = calls s"
proof (induction es arbitrary: s)
  case Nil
  then show ?case by simp
next
  case (Cons e es)
  from step_started [OF Cons.prems(2)] obtain s1 where s1: "step e s = Inr s1" "started s1"
    by blast
  from Cons.prems(3) s1(1) have ex: "exec es s1 = Inr s'" by simp
  from step_stopped [OF Cons.prems(1,2) s1(1)] Cons.IH [OF _ s1(2) ex]
  show ?case by simp
qed

lemma step_reachable:
  "started s \<Longrightarrow> step e s = Inr s' \<Longrightarrow> e \<noteq> RegistryDown \<Longrightarrow> reachable s \<Longrightarrow>
     (phase s = Stopped \<Longrightarrow> teardownOutcome s = Some True) \<Longrightarrow> declarations s \<noteq> [] \<Longrightarrow>
     reachable s' \<and> declarations s' = declarations s
     \<and> (phase s' = Stopped \<longrightarrow> teardownOutcome s' = Some True)"
  by (cases e; cases "phase s")
     (auto simp: started_def interrupt_def closeSignal_def wake_def runOnce_eq deregisterAll_eq
           split: if_splits)

lemma exec_reachable:
  "started s \<Longrightarrow> exec es s = Inr s' \<Longrightarrow> RegistryDown \<notin> set es \<Longrightarrow> reachable s \<Longrightarrow>
     (phase s = Stopped \<Longrightarrow> teardownOutcome s = Some True) \<Longrightarrow> declarations s \<noteq> [] \<Longrightarrow>
     reachable s' \<and> (phase s' = Stopped \<longrightarrow> teardownOutcome s' = Some True)"
proof (induction es arbitrary: s)
  case Nil
  then show ?case by auto
next
  case (Cons e es)
  from step_started [OF Cons.prems(1)] obtain s1 where s1: "step e s = Inr s1" "started s1"
    by blast
  from Cons.prems(2) s1(1) have ex: "exec es s1 = Inr s'" by simp
  from Cons.prems(3) have ne: "e \<noteq> RegistryDown" and rest: "RegistryDown \<notin> set es" by auto
  from step_reachable [OF Cons.prems(1) s1(1) ne Cons.prems(4) Cons.prems(5) Cons.prems(6)]
  have r1: "reachable s1" and d1: "declarations s1 \<noteq> []"
    and t1: "phase s1 = Stopped \<Longrightarrow> teardownOutcome s1 = Some True"
    using Cons.prems(6) by auto
  from Cons.IH [OF s1(2) ex rest r1 t1 d1] show ?case by simp
qed

lemma exec_interrupted:
  assumes "started s" and "Interrupt \<in> set es1"
  shows "\<exists>s'. exec (es1 @ Wake # es2) s = Inr s' \<and> started s' \<and> phase s' = Stopped
           \<and> teardowns s' = 1"
proof -
  from exec_started [OF assms(1)] obtain s1 where s1: "exec es1 s = Inr s1" "started s1"
    by blast
  from exec_latch [OF assms(1) s1(1)] assms(2) have l1: "latch s1" by blast
  from wake_stops [OF s1(2) l1] have p2: "phase (wake s1) = Stopped" .
  from step_started [OF s1(2), of Wake] have st2: "started (wake s1)" by simp
  from exec_started [OF st2] obtain s' where s': "exec es2 (wake s1) = Inr s'" "started s'"
    by blast
  from exec_stopped [OF p2 st2 s'(1)] have p': "phase s' = Stopped" by simp
  with s'(2) have "teardowns s' = 1" by (simp add: started_def)
  moreover from s1(1) s'(1) have "exec (es1 @ Wake # es2) s = Inr s'"
    by (simp add: exec_append)
  ultimately show ?thesis using s'(2) p' by blast
qed

text \<open>
  C5. When the configuration input is read and parsed and does not declare exactly two
  services (the empty input declares none), the run fails with the error
  \<^verbatim>\<open>expected 2 services to be defined\<close> and the status 1, whatever the registry does and
  whatever events follow: the loop is never started and no registry call is made.
\<close>

theorem Run_wrong_service_count:
  assumes "flagServiceConfig flags \<noteq> []"
    and "parseDuration env (flagSyncPeriod flags) = Inr syncPeriod"
    and "readFile env (flagServiceConfig flags) = Some contents"
    and "loadServices env contents = Inr svcs"
    and "length svcs \<noteq> 2"
  shows "Run env flags up events =
           Inr \<lparr>status = Some 1, errors = [''expected 2 services to be defined''],
                registryCalls = [], teardownPasses = 0, teardownClean = None\<rparr>"
  using assms by (simp add: Run_def loadConfig_def failed_def)

theorem Run_wrong_service_count_witness:
  "flagServiceConfig (test_flags ''empty.hcl'' ''100ms'') \<noteq> []
   \<and> parseDuration test_collaborators (flagSyncPeriod (test_flags ''empty.hcl'' ''100ms''))
       = Inr 100
   \<and> readFile test_collaborators (flagServiceConfig (test_flags ''empty.hcl'' ''100ms''))
       = Some []
   \<and> loadServices test_collaborators [] = Inr []
   \<and> length ([] :: ServiceDeclaration list) \<noteq> 2
   \<and> Run test_collaborators (test_flags ''empty.hcl'' ''100ms'') True [Wake, Interrupt, Wake]
       = Inr \<lparr>status = Some 1, errors = [''expected 2 services to be defined''],
              registryCalls = [], teardownPasses = 0, teardownClean = None\<rparr>"
proof -
  let ?F = "test_flags ''empty.hcl'' ''100ms''"
  have a: "flagServiceConfig ?F \<noteq> []" by (simp add: test_flags_def)
  have b: "parseDuration test_collaborators (flagSyncPeriod ?F) = Inr 100"
    by (simp add: test_flags_def test_collaborators_def)
  have c: "readFile test_collaborators (flagServiceConfig ?F) = Some []"
    by (simp add: test_flags_def test_collaborators_def)
  have d: "loadServices test_collaborators [] = Inr []"
    by (simp add: test_collaborators_def)
  have e: "length ([] :: ServiceDeclaration list) \<noteq> 2" by simp
  from a b c d e Run_wrong_service_count [OF a b c d e, of True "[Wake, Interrupt, Wake]"]
  show ?thesis by (intro conjI)
qed

text \<open>
  C6. A run whose service-config path is not set, whose sync period does not parse, or
  whose service-config path cannot be read returns the status 1 with the error that
  describes it and makes no registry call. A run with a valid configuration that is
  interrupted returns once the loop has woken: after exactly one teardown pass, and with
  the status 0 when the teardown was clean, as it is when the registry answers
  throughout.
\<close>

theorem Run_terminal_status:
  "(flagServiceConfig flags = [] \<longrightarrow>
      Run env flags up events = Inr (failed ServiceConfigUnset))
   \<and> (\<forall>e. flagServiceConfig flags \<noteq> [] \<and> parseDuration env (flagSyncPeriod flags) = Inl e \<longrightarrow>
      Run env flags up events = Inr (failed (SyncPeriodInvalid e)))
   \<and> (\<forall>d. flagServiceConfig flags \<noteq> [] \<and> parseDuration env (flagSyncPeriod flags) = Inr d
         \<and> readFile env (flagServiceConfig flags) = None \<longrightarrow>
      Run env flags up events = Inr (failed (ServiceConfigNotFound (flagServiceConfig flags))))
   \<and> (\<forall>e. status (failed e) = Some 1 \<and> errors (failed e) = [errorMessage e]
         \<and> registryCalls (failed e) = [])
   \<and> (\<forall>cfg es1 es2. loadConfig env flags = Inr cfg \<and> Interrupt \<in> set es1 \<longrightarrow>
         (\<exists>r. Run env flags up (es1 @ Wake # es2) = Inr r
              \<and> status r \<noteq> None
              \<and> teardownPasses r = 1
              \<and> (teardownClean r = Some True \<longrightarrow> status r = Some 0)
              \<and> (up \<and> RegistryDown \<notin> set (es1 @ Wake # es2) \<longrightarrow> teardownClean r = Some True)))"
proof (intro conjI allI impI)
  assume "flagServiceConfig flags = []"
  then show "Run env flags up events = Inr (failed ServiceConfigUnset)"
    by (simp add: Run_def loadConfig_def)
next
  fix e
  assume "flagServiceConfig flags \<noteq> [] \<and> parseDuration env (flagSyncPeriod flags) = Inl e"
  then show "Run env flags up events = Inr (failed (SyncPeriodInvalid e))"
    by (simp add: Run_def loadConfig_def)
next
  fix d
  assume "flagServiceConfig flags \<noteq> [] \<and> parseDuration env (flagSyncPeriod flags) = Inr d
         \<and> readFile env (flagServiceConfig flags) = None"
  then show "Run env flags up events = Inr (failed (ServiceConfigNotFound (flagServiceConfig flags)))"
    by (simp add: Run_def loadConfig_def)
next
  fix e show "status (failed e) = Some 1" by (simp add: failed_def)
next
  fix e show "errors (failed e) = [errorMessage e]" by (simp add: failed_def)
next
  fix e show "registryCalls (failed e) = []" by (simp add: failed_def)
next
  fix cfg es1 es2
  assume a: "loadConfig env flags = Inr cfg \<and> Interrupt \<in> set es1"
  obtain svcs syncPeriod where cfg: "cfg = (svcs, syncPeriod)" by (cases cfg)
  let ?s0 = "start (initState svcs syncPeriod up)"
  have st0: "started ?s0" by (rule started_start)
  from a cfg have len: "length svcs = 2"
    by (auto simp: loadConfig_def split: if_splits sum.splits option.splits)
  from exec_interrupted [OF st0, of es1 es2] a obtain s' where
    s': "exec (es1 @ Wake # es2) ?s0 = Inr s'" "started s'" "phase s' = Stopped" "teardowns s' = 1"
    by blast
  let ?r = "\<lparr>status = exitStatus env s', errors = [], registryCalls = calls s',
             teardownPasses = teardowns s', teardownClean = teardownOutcome s'\<rparr>"
  from a cfg s'(1) have run: "Run env flags up (es1 @ Wake # es2) = Inr ?r"
    by (simp add: Run_def)
  have clean: "up \<and> RegistryDown \<notin> set (es1 @ Wake # es2) \<longrightarrow> teardownOutcome s' = Some True"
  proof
    assume u: "up \<and> RegistryDown \<notin> set (es1 @ Wake # es2)"
    have r0: "reachable ?s0" using u by (simp add: start_def initState_def runOnce_eq)
    have d0: "declarations ?s0 \<noteq> []" using len
      by (auto simp: start_def initState_def runOnce_eq)
    have p0: "phase ?s0 = Stopped \<Longrightarrow> teardownOutcome ?s0 = Some True"
      by (simp add: start_def initState_def runOnce_eq)
    from exec_reachable [OF st0 s'(1) _ r0 p0 d0] u s'(3)
    show "teardownOutcome s' = Some True" by blast
  qed
  from s'(3,4) clean
  have "status ?r \<noteq> None \<and> teardownPasses ?r = 1
      \<and> (teardownClean ?r = Some True \<longrightarrow> status ?r = Some 0)
      \<and> (up \<and> RegistryDown \<notin> set (es1 @ Wake # es2) \<longrightarrow> teardownClean ?r = Some True)"
    by (simp add: exitStatus_def)
  with run show "\<exists>r. Run env flags up (es1 @ Wake # es2) = Inr r
              \<and> status r \<noteq> None
              \<and> teardownPasses r = 1
              \<and> (teardownClean r = Some True \<longrightarrow> status r = Some 0)
              \<and> (up \<and> RegistryDown \<notin> set (es1 @ Wake # es2) \<longrightarrow> teardownClean r = Some True)"
    by blast
qed

theorem Run_terminal_status_witness:
  "Run test_collaborators (test_flags [] ''100ms'') True [Wake]
     = Inr (failed ServiceConfigUnset)
   \<and> Run test_collaborators (test_flags ''/config.hcl'' ''notparseable'') True [Wake]
     = Inr (failed (SyncPeriodInvalid ''time: invalid duration notparseable''))
   \<and> Run test_collaborators (test_flags ''/does/not/exist'' ''100ms'') True [Wake]
     = Inr (failed (ServiceConfigNotFound ''/does/not/exist''))
   \<and> status (failed (SyncPeriodInvalid ''time: invalid duration notparseable'')) = Some 1
   \<and> errors (failed (SyncPeriodInvalid ''time: invalid duration notparseable''))
     = [''-sync-period is invalid: time: invalid duration notparseable'']
   \<and> registryCalls (failed (SyncPeriodInvalid ''time: invalid duration notparseable'')) = []
   \<and> (\<exists>r. Run test_collaborators (test_flags ''svc.hcl'' ''100ms'') True
              ([Wake, Interrupt] @ Wake # [])
            = Inr r
          \<and> status r = Some 0 \<and> teardownPasses r = 1)"
proof -
  let ?E = "test_collaborators"
  note th = Run_terminal_status
  have 1: "Run ?E (test_flags [] ''100ms'') True [Wake] = Inr (failed ServiceConfigUnset)"
    using th [of "test_flags [] ''100ms''" ?E True "[Wake]", THEN conjunct1]
    by (simp add: test_flags_def)
  have 2: "Run ?E (test_flags ''/config.hcl'' ''notparseable'') True [Wake]
      = Inr (failed (SyncPeriodInvalid ''time: invalid duration notparseable''))"
    using th [of "test_flags ''/config.hcl'' ''notparseable''" ?E True "[Wake]",
        THEN conjunct2, THEN conjunct1, rule_format,
        of "''time: invalid duration notparseable''"]
    by (simp add: test_flags_def test_collaborators_def)
  have 3: "Run ?E (test_flags ''/does/not/exist'' ''100ms'') True [Wake]
      = Inr (failed (ServiceConfigNotFound ''/does/not/exist''))"
    using th [of "test_flags ''/does/not/exist'' ''100ms''" ?E True "[Wake]",
        THEN conjunct2, THEN conjunct2, THEN conjunct1, rule_format, of 100]
    by (simp add: test_flags_def test_collaborators_def)
  note 4 = th [of "test_flags [] ''100ms''" ?E True "[Wake]",
        THEN conjunct2, THEN conjunct2, THEN conjunct2, THEN conjunct1, rule_format,
        of "SyncPeriodInvalid ''time: invalid duration notparseable''"]
  have cfg: "loadConfig ?E (test_flags ''svc.hcl'' ''100ms'') = Inr (test_services, 100)"
    by (simp add: loadConfig_def test_flags_def test_collaborators_def test_services_def)
  have i: "Interrupt \<in> set [Wake, Interrupt]" by simp
  from cfg i have ci: "loadConfig ?E (test_flags ''svc.hcl'' ''100ms'') = Inr (test_services, 100)
      \<and> Interrupt \<in> set [Wake, Interrupt]" ..
  note 5 = th [of "test_flags ''svc.hcl'' ''100ms''" ?E True "[Wake]",
        THEN conjunct2, THEN conjunct2, THEN conjunct2, THEN conjunct2, rule_format, OF ci,
        of "[]"]
  from 5 have 6: "\<exists>r. Run ?E (test_flags ''svc.hcl'' ''100ms'') True ([Wake, Interrupt] @ Wake # [])
            = Inr r \<and> status r = Some 0 \<and> teardownPasses r = 1"
    by auto
  from 4 have 7: "status (failed (SyncPeriodInvalid ''time: invalid duration notparseable'')) = Some 1
   \<and> errors (failed (SyncPeriodInvalid ''time: invalid duration notparseable''))
     = [''-sync-period is invalid: time: invalid duration notparseable'']
   \<and> registryCalls (failed (SyncPeriodInvalid ''time: invalid duration notparseable'')) = []"
    by simp
  from 1 2 3 7 6 show ?thesis by (intro conjI) simp_all
qed

text \<open>
  C7. The interrupt is idempotent. Whatever events a started command meets, any number of
  interrupts among them, no step fails: the signal is never closed twice. Once the
  interrupt has been fired, firing it again leaves the state as it is, and when the loop
  wakes the teardown has run exactly once, however many interrupts came before or come
  after.
\<close>

theorem interrupt_idempotent:
  "\<exists>s. exec es (start (initState svcs ival up)) = Inr s
       \<and> teardowns s \<le> 1
       \<and> (latch s \<longrightarrow> interrupt s = Inr s)
       \<and> (Interrupt \<in> set es \<longrightarrow>
            interrupt s = Inr s
            \<and> exec (es @ [Interrupt]) (start (initState svcs ival up)) = Inr s
            \<and> (\<exists>s'. exec (es @ Wake # es') (start (initState svcs ival up)) = Inr s'
                   \<and> teardowns s' = 1 \<and> phase s' = Stopped))"
proof -
  let ?s0 = "start (initState svcs ival up)"
  have st0: "started ?s0" by (rule started_start)
  from exec_started [OF st0] obtain s where s: "exec es ?s0 = Inr s" "started s" by blast
  have t: "teardowns s \<le> 1" using s(2) by (simp add: started_def)
  have noop: "latch s \<longrightarrow> interrupt s = Inr s" by (simp add: interrupt_def)
  have fired: "Interrupt \<in> set es \<longrightarrow>
            interrupt s = Inr s
            \<and> exec (es @ [Interrupt]) ?s0 = Inr s
            \<and> (\<exists>s'. exec (es @ Wake # es') ?s0 = Inr s' \<and> teardowns s' = 1 \<and> phase s' = Stopped)"
  proof
    assume i: "Interrupt \<in> set es"
    from exec_latch [OF st0 s(1)] i have l: "latch s" by blast
    then have a: "interrupt s = Inr s" by (simp add: interrupt_def)
    with s(1) have b: "exec (es @ [Interrupt]) ?s0 = Inr s" by (simp add: exec_append)
    from exec_interrupted [OF st0 i, of es'] a b
    show "interrupt s = Inr s
            \<and> exec (es @ [Interrupt]) ?s0 = Inr s
            \<and> (\<exists>s'. exec (es @ Wake # es') ?s0 = Inr s' \<and> teardowns s' = 1 \<and> phase s' = Stopped)"
      by blast
  qed
  from s(1) t noop fired show ?thesis by blast
qed

theorem interrupt_idempotent_witness:
  "Interrupt \<in> set [Wake, Interrupt, Interrupt]
   \<and> (\<exists>s. exec [Wake, Interrupt, Interrupt] (start (initState test_services 100 True)) = Inr s
          \<and> interrupt s = Inr s
          \<and> exec ([Wake, Interrupt, Interrupt] @ [Interrupt])
                (start (initState test_services 100 True)) = Inr s
          \<and> (\<exists>s'. exec ([Wake, Interrupt, Interrupt] @ Wake # [Interrupt, Wake])
                       (start (initState test_services 100 True)) = Inr s'
                 \<and> teardowns s' = 1 \<and> phase s' = Stopped))"
proof -
  have i: "Interrupt \<in> set [Wake, Interrupt, Interrupt]" by simp
  from interrupt_idempotent [of "[Wake, Interrupt, Interrupt]" test_services 100 True
      "[Interrupt, Wake]"] i
  show ?thesis by blast
qed

end
